theory Spec2Isabelle
  imports Main "HOL-Library.Multiset"
begin

section \<open>Units and symmetry operators\<close>

text \<open>A model is identified by its \<^verbatim>\<open>id\<close>; element indices are plain integers.\<close>

type_synonym Model = nat
type_synonym ElementIndex = int

datatype Kind = Atomic | Spheres | Gaussians

datatype Trait = MultiChain | Patitioned

text \<open>
  Modelled from the spec: the symmetry operator and \<^verbatim>\<open>SymmetryOperator.create(name, matrix,
  assembly, ncsId, hkl)\<close> (\<^verbatim>\<open>symmetry-operator.ts\<close> is not among the files): a rigid
  transform with its name, assembly id, NCS id and HKL metadata, built from the five
  arguments. The matrix type \<open>'m\<close> (\<^verbatim>\<open>Mat4\<close>) is a parameter.
\<close>

record 'm SymmetryOperator =
  name :: string
  matrix :: 'm
  assembly :: string
  ncsId :: int
  hkl :: "int \<times> int \<times> int"

definition create :: "string \<Rightarrow> 'm \<Rightarrow> string \<Rightarrow> int \<Rightarrow> int \<times> int \<times> int \<Rightarrow> 'm SymmetryOperator" where
  "create n m a i h = \<lparr>name = n, matrix = m, assembly = a, ncsId = i, hkl = h\<rparr>"

text \<open>
  \<^verbatim>\<open>Unit.create(id, invariantId, chainGroupId, traits, kind, model, operator, elements)\<close>.
  The field \<^verbatim>\<open>id\<close> is called \<open>unit_id\<close> here and \<^verbatim>\<open>u.conformation.operator\<close> is \<open>operator\<close>.
\<close>

record 'm Unit =
  unit_id :: int
  invariantId :: int
  chainGroupId :: int
  traits :: "Trait set"
  kind :: Kind
  model :: Model
  operator :: "'m SymmetryOperator"
  elements :: "ElementIndex list"

definition Unit_create ::
  "int \<Rightarrow> int \<Rightarrow> int \<Rightarrow> Trait set \<Rightarrow> Kind \<Rightarrow> Model \<Rightarrow> 'm SymmetryOperator \<Rightarrow> ElementIndex list \<Rightarrow> 'm Unit" where
  "Unit_create i iv cg tr k mdl op els =
     \<lparr>unit_id = i, invariantId = iv, chainGroupId = cg, traits = tr, kind = k, model = mdl,
      operator = op, elements = els\<rparr>"

section \<open>External collaborators\<close>

text \<open>
  The linear algebra, the hash functions and the generic sort live outside the files at
  hand; the structure code only calls them. They are parameters of the model:
  \<^item> \<open>isIdentity\<close>, \<open>isRotationAndTranslation\<close>: \<^verbatim>\<open>Mat4.isIdentity\<close> and
    \<^verbatim>\<open>Mat4.isRotationAndTranslation(_, SymmetryOperator.RotationTranslationEpsilon)\<close>;
  \<^item> \<open>compose\<close>, \<open>Default\<close>: \<^verbatim>\<open>SymmetryOperator.compose\<close> and \<^verbatim>\<open>SymmetryOperator.Default\<close>;
  \<^item> \<open>sortUnits\<close>: \<^verbatim>\<open>sort(units, 0, units.length, cmp, arraySwap)\<close>, given the comparator;
  \<^item> \<open>hashFnv32a\<close>, \<open>hash1\<close>, \<open>SortedArray_hashCode\<close>: the hash functions of \<^verbatim>\<open>mol-data\<close>.
\<close>

record 'm Ext =
  isIdentity :: "'m \<Rightarrow> bool"
  isRotationAndTranslation :: "'m \<Rightarrow> bool"
  compose :: "'m SymmetryOperator \<Rightarrow> 'm SymmetryOperator \<Rightarrow> 'm SymmetryOperator"
  Default :: "'m SymmetryOperator"
  sortUnits :: "('m Unit \<Rightarrow> 'm Unit \<Rightarrow> int) \<Rightarrow> 'm Unit list \<Rightarrow> 'm Unit list"
  hashFnv32a :: "int list \<Rightarrow> int"
  hash1 :: "int \<Rightarrow> int"
  SortedArray_hashCode :: "ElementIndex list \<Rightarrow> int"

text \<open>
  Modelled from the spec: \<^verbatim>\<open>Unit.applyOperator(id, operator)\<close> (\<^verbatim>\<open>unit.ts\<close> is not among
  the files). The new unit has the given id and carries the composed symmetry operator;
  every other attribute, the element set included, is the old unit's.
\<close>

definition applyOperator :: "'m Ext \<Rightarrow> 'm Unit \<Rightarrow> int \<Rightarrow> 'm SymmetryOperator \<Rightarrow> 'm Unit" where
  "applyOperator E u i op = u\<lparr>unit_id := i, operator := compose E (operator u) op\<rparr>"

section \<open>Structures in a store\<close>

text \<open>
  Structures and unit arrays are objects with identity: a Structure keeps a reference to
  the array it was built from and a reference to its parent. The store holds the arrays
  and the Structure objects; a reference is the position in the store, and \<^verbatim>\<open>new\<close>
  appends.
\<close>

record 'm Props =
  parent :: "nat option"
  coordinateSystem :: "'m SymmetryOperator option"
  label :: "string option"
  masterModel :: "Model option"
  representativeModel :: "Model option"

definition noProps :: "'m Props" where
  "noProps = \<lparr>parent = None, coordinateSystem = None, label = None, masterModel = None,
              representativeModel = None\<rparr>"

text \<open>
  The object: the three public fields and the private \<^verbatim>\<open>_props\<close> (fields \<open>p_...\<close>). An
  optional field that is \<^verbatim>\<open>undefined\<close> is \<open>None\<close>; the numeric caches use the source's
  sentinel \<open>-1\<close>.
\<close>

record 'm Structure =
  unitMap :: "int \<rightharpoonup> 'm Unit"
  unitIndexMap :: "int \<rightharpoonup> nat"
  units :: nat
  p_parent :: "nat option"
  p_models :: "Model list option"
  p_model :: "Model option"
  p_masterModel :: "Model option"
  p_representativeModel :: "Model option"
  p_hashCode :: int
  p_transformHash :: int
  p_elementCount :: int
  p_coordinateSystem :: "'m SymmetryOperator"
  p_label :: string

record 'm store =
  arrays :: "'m Unit list list"
  structs :: "'m Structure list"

datatype error = MultipleModels | InvalidTransform

text \<open>
  \<^verbatim>\<open>cmpUnits(units, i, j)\<close> compares the units at two positions of the array; here it takes
  the two units.
\<close>

definition cmpUnits :: "'m Unit \<Rightarrow> 'm Unit \<Rightarrow> int" where
  "cmpUnits a b = unit_id a - unit_id b"

text \<open>The first loop of \<^verbatim>\<open>initUnits\<close>: one step per unit, left to right.\<close>

definition initUnits_step ::
  "(int \<rightharpoonup> 'm Unit) \<times> int \<times> bool \<times> int \<Rightarrow> 'm Unit \<Rightarrow> (int \<rightharpoonup> 'm Unit) \<times> int \<times> bool \<times> int" where
  "initUnits_step acc u =
     (case acc of (um, elementCount, isSorted, lastId) \<Rightarrow>
        (um(unit_id u \<mapsto> u),
         elementCount + int (length (elements u)),
         (if unit_id u < lastId then False else isSorted),
         unit_id u))"

definition initUnits_scan :: "'m Unit list \<Rightarrow> (int \<rightharpoonup> 'm Unit) \<times> int \<times> bool \<times> int" where
  "initUnits_scan us =
     foldl initUnits_step (Map.empty, 0, True, (if length us > 0 then unit_id (us ! 0) else 0)) us"

text \<open>The second loop: \<^verbatim>\<open>unitIndexMap.set(units[i].id, i)\<close> for \<open>i\<close> ascending.\<close>

definition indexUnits :: "'m Unit list \<Rightarrow> (int \<rightharpoonup> nat)" where
  "indexUnits us = foldl (\<lambda>m i. m(unit_id (us ! i) \<mapsto> i)) Map.empty [0..<length us]"

text \<open>
  \<^verbatim>\<open>initUnits(units)\<close> on the array at address \<open>a\<close>: the array is sorted in place when the
  scan found a descent. Returns the two maps, the element count and the store.
\<close>

definition initUnits ::
  "'m Ext \<Rightarrow> 'm store \<Rightarrow> nat \<Rightarrow> ((int \<rightharpoonup> 'm Unit) \<times> (int \<rightharpoonup> nat) \<times> int) \<times> 'm store" where
  "initUnits E st a =
     (case initUnits_scan (arrays st ! a) of (um, elementCount, isSorted, lastId) \<Rightarrow>
        let st' = (if \<not> isSorted
                   then st\<lparr>arrays := (arrays st)[a := sortUnits E cmpUnits (arrays st ! a)]\<rparr>
                   else st)
        in ((um, indexUnits (arrays st' ! a), elementCount), st'))"

text \<open>The getters the constructor reads on \<^verbatim>\<open>props.parent\<close>.\<close>

definition get_parent :: "'m store \<Rightarrow> nat \<Rightarrow> nat option" where
  "get_parent st s = p_parent (structs st ! s)"

definition root :: "'m store \<Rightarrow> nat \<Rightarrow> nat" where
  "root st s = (case p_parent (structs st ! s) of Some p \<Rightarrow> p | None \<Rightarrow> s)"

definition get_coordinateSystem :: "'m store \<Rightarrow> nat \<Rightarrow> 'm SymmetryOperator" where
  "get_coordinateSystem st s = p_coordinateSystem (structs st ! s)"

definition get_label :: "'m store \<Rightarrow> nat \<Rightarrow> string" where
  "get_label st s = p_label (structs st ! s)"

definition get_masterModel :: "'m store \<Rightarrow> nat \<Rightarrow> Model option" where
  "get_masterModel st s = p_masterModel (structs st ! s)"

definition get_representativeModel :: "'m store \<Rightarrow> nat \<Rightarrow> Model option" where
  "get_representativeModel st s = p_representativeModel (structs st ! s)"

text \<open>
  \<^verbatim>\<open>new Structure(units, props)\<close>, \<open>a\<close> the address of \<^verbatim>\<open>units\<close>. The empty label is falsy, so
  it is inherited from the parent like a missing one. Returns the address of the new
  object and the store.
\<close>

definition new_Structure :: "'m Ext \<Rightarrow> 'm store \<Rightarrow> nat \<Rightarrow> 'm Props \<Rightarrow> nat \<times> 'm store" where
  "new_Structure E st a props =
     (case initUnits E st a of ((um, uim, elementCount), st1) \<Rightarrow>
        let this = \<lparr>unitMap = um, unitIndexMap = uim, units = a,
                    p_parent = (case parent props of
                                  Some p \<Rightarrow> (case get_parent st1 p of Some g \<Rightarrow> Some g | None \<Rightarrow> Some p)
                                | None \<Rightarrow> None),
                    p_models = None,
                    p_model = None,
                    p_masterModel = (case masterModel props of
                                       Some m \<Rightarrow> Some m
                                     | None \<Rightarrow> (case parent props of
                                                  Some p \<Rightarrow> get_masterModel st1 p | None \<Rightarrow> None)),
                    p_representativeModel = (case representativeModel props of
                                       Some m \<Rightarrow> Some m
                                     | None \<Rightarrow> (case parent props of
                                                  Some p \<Rightarrow> get_representativeModel st1 p | None \<Rightarrow> None)),
                    p_hashCode = -1,
                    p_transformHash = -1,
                    p_elementCount = elementCount,
                    p_coordinateSystem = (case coordinateSystem props of
                                            Some cs \<Rightarrow> cs
                                          | None \<Rightarrow> (case parent props of
                                                       Some p \<Rightarrow> get_coordinateSystem st1 p
                                                     | None \<Rightarrow> Default E)),
                    p_label = (if label props \<noteq> None \<and> label props \<noteq> Some ''''
                               then the (label props)
                               else (case parent props of
                                       Some p \<Rightarrow> get_label st1 p | None \<Rightarrow> ''''))\<rparr>
        in (length (structs st1), st1\<lparr>structs := structs st1 @ [this]\<rparr>))"

text \<open>A fresh array literal: \<^verbatim>\<open>const units: Unit[] = []\<close> filled by \<^verbatim>\<open>push\<close>.\<close>

definition new_array :: "'m store \<Rightarrow> 'm Unit list \<Rightarrow> nat \<times> 'm store" where
  "new_array st us = (length (arrays st), st\<lparr>arrays := arrays st @ [us]\<rparr>)"

text \<open>The body of the loop of \<^verbatim>\<open>Structure.transform\<close>: the unit pushed for \<open>u\<close>.\<close>

definition transform_unit :: "'m Ext \<Rightarrow> 'm \<Rightarrow> 'm Unit \<Rightarrow> 'm Unit" where
  "transform_unit E m u =
     (let old = operator u;
          op = create (name old) m (assembly old) (ncsId old) (hkl old)
      in applyOperator E u (unit_id u) op)"

text \<open>
  \<^verbatim>\<open>Structure.transform(s, transform)\<close>. The result is the returned reference or the
  thrown error, together with the store at that moment.
\<close>

definition transform :: "'m Ext \<Rightarrow> 'm store \<Rightarrow> nat \<Rightarrow> 'm \<Rightarrow> (error + nat) \<times> 'm store" where
  "transform E st s m =
     (if isIdentity E m then (Inr s, st)
      else if \<not> isRotationAndTranslation E m then (Inl InvalidTransform, st)
      else
        let (a, st1) = new_array st (map (transform_unit E m) (arrays st ! units (structs st ! s)));
            cs = get_coordinateSystem st1 s;
            newCS = compose E (create (name cs) m (assembly cs) (ncsId cs) (hkl cs)) cs;
            (r, st2) = new_Structure E st1 a \<lparr>parent = Some s, coordinateSystem = Some newCS,
                                               label = None, masterModel = None,
                                               representativeModel = None\<rparr>
        in (Inr r, st2))"

section \<open>Cached hashes\<close>

text \<open>\<^verbatim>\<open>x | 0\<close>: the signed 32-bit value of an integer.\<close>

definition toInt32 :: "int \<Rightarrow> int" where
  "toInt32 x = (x + 2 ^ 31) mod 2 ^ 32 - 2 ^ 31"

text \<open>The body of the loop of \<^verbatim>\<open>computeHash\<close>.\<close>

definition computeHash_step :: "'m Ext \<Rightarrow> int \<Rightarrow> 'm Unit \<Rightarrow> int" where
  "computeHash_step E hash u =
     (let hash = toInt32 (31 * hash + unit_id u)
      in toInt32 (31 * hash + SortedArray_hashCode E (elements u)))"

definition computeHash :: "'m Ext \<Rightarrow> 'm store \<Rightarrow> nat \<Rightarrow> int \<times> 'm store" where
  "computeHash E st s =
     (let this = structs st ! s;
          hash = foldl (computeHash_step E) 23 (arrays st ! units this);
          hash = toInt32 (31 * hash + p_elementCount this);
          hash = hash1 E hash;
          hash = (if hash = -1 then 0 else hash)
      in (hash, st\<lparr>structs := (structs st)[s := this\<lparr>p_hashCode := hash\<rparr>]\<rparr>))"

definition hashCode :: "'m Ext \<Rightarrow> 'm store \<Rightarrow> nat \<Rightarrow> int \<times> 'm store" where
  "hashCode E st s =
     (if p_hashCode (structs st ! s) \<noteq> -1 then (p_hashCode (structs st ! s), st)
      else computeHash E st s)"

definition transformHash :: "'m Ext \<Rightarrow> 'm store \<Rightarrow> nat \<Rightarrow> int \<times> 'm store" where
  "transformHash E st s =
     (let this = structs st ! s
      in if p_transformHash this \<noteq> -1 then (p_transformHash this, st)
         else let h = hashFnv32a E (map unit_id (arrays st ! units this))
              in (h, st\<lparr>structs := (structs st)[s := this\<lparr>p_transformHash := h\<rparr>]\<rparr>))"

section \<open>Models of a structure\<close>

text \<open>
  \<^verbatim>\<open>getModels\<close>: the models the units refer to. \<^verbatim>\<open>UniqueArray\<close> is modelled from the spec
  (\<^verbatim>\<open>mol-data/generic\<close> is not among the files): \<^verbatim>\<open>add(arr, key, value)\<close> appends the value
  unless the key was added before, so the array holds each model once, in first-seen
  order. The key is the model id, which is the model here.
\<close>

definition getModels_of :: "'m Unit list \<Rightarrow> Model list" where
  "getModels_of us = foldl (\<lambda>arr u. if model u \<in> set arr then arr else arr @ [model u]) [] us"

definition get_models :: "'m store \<Rightarrow> nat \<Rightarrow> Model list \<times> 'm store" where
  "get_models st s =
     (let this = structs st ! s
      in case p_models this of
           Some ms \<Rightarrow> (ms, st)
         | None \<Rightarrow> let ms = getModels_of (arrays st ! units this)
                   in (ms, st\<lparr>structs := (structs st)[s := this\<lparr>p_models := Some ms\<rparr>]\<rparr>))"

text \<open>
  The getter \<^verbatim>\<open>model\<close>. \<^verbatim>\<open>models[0]\<close> of an empty array is \<^verbatim>\<open>undefined\<close>, hence the
  option in the result.
\<close>

definition Structure_model :: "'m store \<Rightarrow> nat \<Rightarrow> (error + Model option) \<times> 'm store" where
  "Structure_model st s =
     (let this = structs st ! s
      in if p_model this \<noteq> None then (Inr (p_model this), st)
         else if p_representativeModel this \<noteq> None then (Inr (p_representativeModel this), st)
         else if p_masterModel this \<noteq> None then (Inr (p_masterModel this), st)
         else case get_models st s of (models, st1) \<Rightarrow>
           if length models > 1 then (Inl MultipleModels, st1)
           else let m = (if models = [] then None else Some (models ! 0))
                in (Inr m, st1\<lparr>structs := (structs st1)[s := (structs st1 ! s)\<lparr>p_model := m\<rparr>]\<rparr>))"

section \<open>Well-formed stores\<close>

text \<open>
  The value the hash code has to have: a function of the (unit id, element list) pairs
  and of the element count.
\<close>

definition hashOf :: "'m Ext \<Rightarrow> (int \<times> ElementIndex list) list \<Rightarrow> int \<Rightarrow> int" where
  "hashOf E ps n =
     (let h = foldl (\<lambda>h p. toInt32 (31 * toInt32 (31 * h + fst p) + SortedArray_hashCode E (snd p))) 23 ps;
          h = hash1 E (toInt32 (31 * h + n))
      in if h = -1 then 0 else h)"

definition unitPairs :: "'m store \<Rightarrow> nat \<Rightarrow> (int \<times> ElementIndex list) list" where
  "unitPairs st s = map (\<lambda>u. (unit_id u, elements u)) (arrays st ! units (structs st ! s))"

definition countOf :: "(int \<times> ElementIndex list) list \<Rightarrow> int" where
  "countOf ps = (\<Sum>p\<leftarrow>ps. int (length (snd p)))"

text \<open>
  What holds of every Structure object a program can reach: its array exists and is sorted
  by id, the element count is the sum over the units, a cache is either unset or holds the
  value its getter computes, and the parent, if any, is an object without a parent.
\<close>

definition wf_struct :: "'m Ext \<Rightarrow> 'm store \<Rightarrow> 'm Structure \<Rightarrow> bool" where
  "wf_struct E st S =
     (let us = arrays st ! units S; ps = map (\<lambda>u. (unit_id u, elements u)) us
      in units S < length (arrays st)
       \<and> sorted (map unit_id us)
       \<and> p_elementCount S = countOf ps
       \<and> (p_hashCode S = -1 \<or> p_hashCode S = hashOf E ps (countOf ps))
       \<and> (p_transformHash S = -1 \<or> p_transformHash S = hashFnv32a E (map unit_id us))
       \<and> (case p_parent S of None \<Rightarrow> True
           | Some p \<Rightarrow> p < length (structs st) \<and> p_parent (structs st ! p) = None)
       \<and> (case p_models S of None \<Rightarrow> True | Some ms \<Rightarrow> ms = getModels_of us)
       \<and> (case p_model S of None \<Rightarrow> True
           | Some m \<Rightarrow> p_representativeModel S = None \<and> p_masterModel S = None
                       \<and> getModels_of us = [m]))"

definition wf_store :: "'m Ext \<Rightarrow> 'm store \<Rightarrow> bool" where
  "wf_store E st = list_all (wf_struct E st) (structs st)"

text \<open>What the structure code relies on from the generic sort.\<close>

definition sort_ok :: "'m Ext \<Rightarrow> bool" where
  "sort_ok E = (\<forall>us. sorted (map unit_id (sortUnits E cmpUnits us))
                   \<and> mset (sortUnits E cmpUnits us) = mset us)"

text \<open>The content of the constructor's array after \<^verbatim>\<open>initUnits\<close>.\<close>

definition arrayAfter :: "'m Ext \<Rightarrow> 'm Unit list \<Rightarrow> 'm Unit list" where
  "arrayAfter E us = (if sorted (map unit_id us) then us else sortUnits E cmpUnits us)"

text \<open>What \<^verbatim>\<open>Structure.transform\<close> passes to the constructor on an accepted matrix: the pushed
  array and the props.\<close>

definition transformProps :: "'m Ext \<Rightarrow> 'm store \<Rightarrow> nat \<Rightarrow> 'm \<Rightarrow> 'm Props" where
  "transformProps E st s m =
     (let cs = p_coordinateSystem (structs st ! s)
      in \<lparr>parent = Some s,
          coordinateSystem = Some (compose E (create (name cs) m (assembly cs) (ncsId cs) (hkl cs)) cs),
          label = None, masterModel = None, representativeModel = None\<rparr>)"

definition pushUnits :: "'m Ext \<Rightarrow> 'm store \<Rightarrow> nat \<Rightarrow> 'm \<Rightarrow> 'm store" where
  "pushUnits E st s m =
     st\<lparr>arrays := arrays st @ [map (transform_unit E m) (arrays st ! units (structs st ! s))]\<rparr>"

text \<open>The models the units of a Structure refer to.\<close>

definition refModels :: "'m store \<Rightarrow> nat \<Rightarrow> Model set" where
  "refModels st s = model ` set (arrays st ! units (structs st ! s))"

section \<open>Ordered sets, segments and atom sets of the query engine\<close>

text \<open>
  Modelled from the spec: \<^verbatim>\<open>Segmentation\<close> and \<^verbatim>\<open>Segmentation.transientSegments\<close>
  (\<^verbatim>\<open>mol-data/int\<close> is not among the files). A segmentation maps an element index to the
  index of the group (chain, residue) it belongs to; over a sorted index set the iterator
  yields the maximal contiguous runs of positions whose elements belong to the same group,
  left to right, each as \<^verbatim>\<open>{ index, start, end }\<close> with \<open>start\<close> inclusive and \<open>end\<close>
  exclusive, both positions in the set.
\<close>

type_synonym Segmentation = "int \<Rightarrow> int"

record Segment =
  seg_index :: int
  seg_start :: nat
  seg_end :: nat

fun segmentsFrom :: "Segmentation \<Rightarrow> nat \<Rightarrow> int list \<Rightarrow> Segment list" where
  "segmentsFrom seg start [] = []"
| "segmentsFrom seg start (x # xs) =
     (let n = length (takeWhile (\<lambda>y. seg y = seg x) xs)
      in \<lparr>seg_index = seg x, seg_start = start, seg_end = start + 1 + n\<rparr>
         # segmentsFrom seg (start + 1 + n) (drop n xs))"

definition transientSegments :: "Segmentation \<Rightarrow> int list \<Rightarrow> Segment list" where
  "transientSegments seg oset = segmentsFrom seg 0 oset"

text \<open>
  \<^verbatim>\<open>it.setSegment(segment)\<close> followed by the \<^verbatim>\<open>hasNext\<close>/\<^verbatim>\<open>move\<close> loop: the runs of \<open>seg\<close>
  within the positions of the given segment.
\<close>

definition segmentsWithin :: "Segmentation \<Rightarrow> int list \<Rightarrow> Segment \<Rightarrow> Segment list" where
  "segmentsWithin seg oset s =
     segmentsFrom seg (seg_start s) (take (seg_end s - seg_start s) (drop (seg_start s) oset))"

text \<open>
  Modelled from the spec: \<^verbatim>\<open>AtomSet\<close> and \<^verbatim>\<open>AtomSet.LinearBuilder\<close> (\<^verbatim>\<open>structure/atom/set\<close>
  is not among the files). An atom set is the sequence of its units, each with the ordered
  set of its atoms; an atom is a (unit id, atom index) pair. The linear builder is a growing
  atom set: \<^verbatim>\<open>beginUnit\<close>/\<^verbatim>\<open>addToUnit\<close>/\<^verbatim>\<open>commitUnit\<close> collect one unit at a time (a unit
  without atoms contributes nothing), \<^verbatim>\<open>add(unit, atom)\<close> appends one atom to the unit's
  entry, creating it when missing, \<^verbatim>\<open>atomCount\<close> counts the atoms added, \<^verbatim>\<open>getSet\<close> is
  the set collected and \<^verbatim>\<open>singleton\<close> its first atom.
\<close>

type_synonym Atom = "nat \<times> int"
type_synonym AtomSet = "(nat \<times> int list) list"

record Builder =
  b_parent :: AtomSet
  b_units :: "(nat \<times> int list) list"
  currentUnit :: "int list"
  atomCount :: nat

definition LinearBuilder :: "AtomSet \<Rightarrow> Builder" where
  "LinearBuilder parent_set = \<lparr>b_parent = parent_set, b_units = [], currentUnit = [], atomCount = 0\<rparr>"

definition beginUnit :: "Builder \<Rightarrow> Builder" where
  "beginUnit b = b\<lparr>currentUnit := []\<rparr>"

definition addToUnit :: "Builder \<Rightarrow> int \<Rightarrow> Builder" where
  "addToUnit b a = b\<lparr>currentUnit := currentUnit b @ [a], atomCount := atomCount b + 1\<rparr>"

definition commitUnit :: "Builder \<Rightarrow> nat \<Rightarrow> Builder" where
  "commitUnit b u = (if currentUnit b = [] then b else b\<lparr>b_units := b_units b @ [(u, currentUnit b)]\<rparr>)"

fun addAtom :: "nat \<Rightarrow> int \<Rightarrow> (nat \<times> int list) list \<Rightarrow> (nat \<times> int list) list" where
  "addAtom u a [] = [(u, [a])]"
| "addAtom u a ((v, as) # rest) = (if v = u then (v, as @ [a]) # rest else (v, as) # addAtom u a rest)"

definition Builder_add :: "Builder \<Rightarrow> nat \<Rightarrow> int \<Rightarrow> Builder" where
  "Builder_add b u a = b\<lparr>b_units := addAtom u a (b_units b), atomCount := atomCount b + 1\<rparr>"

definition getSet :: "Builder \<Rightarrow> AtomSet" where
  "getSet b = b_units b"

definition Builder_singleton :: "Builder \<Rightarrow> Atom" where
  "Builder_singleton b = (fst (hd (b_units b)), hd (snd (hd (b_units b))))"

definition ofAtoms :: "Atom list \<Rightarrow> AtomSet \<Rightarrow> AtomSet" where
  "ofAtoms as template = getSet (foldl (\<lambda>b a. Builder_add b (fst a) (snd a)) (LinearBuilder template) as)"

definition unitIds :: "AtomSet \<Rightarrow> nat list" where
  "unitIds s = map fst s"

definition unitGetByIndex :: "AtomSet \<Rightarrow> nat \<Rightarrow> int list" where
  "unitGetByIndex s i = snd (s ! i)"

section \<open>The query engine\<close>

text \<open>
  A unit of the query engine carries the two segmentations of its hierarchy and whatever
  else (\<open>'d\<close>) the predicates read; a location is a unit with an atom index.
\<close>

record Hierarchy =
  chainSegments :: Segmentation
  residueSegments :: Segmentation

record 'd QUnit =
  hierarchy :: Hierarchy
  unitData :: 'd

type_synonym 'd Location = "'d QUnit \<times> int"

record 'd QStructure =
  atoms :: AtomSet
  qunits :: "nat \<Rightarrow> 'd QUnit"

datatype 'd Selection =
    Empty "'d QStructure"
  | Singletons "'d QStructure" AtomSet
  | Sequence "'d QStructure" "AtomSet list"

text \<open>\<^verbatim>\<open>Partial<AtomGroupsQueryParams>\<close>: every field may be missing.\<close>

record ('d, 'k) PartialParams =
  entityTest_opt :: "('d Location \<Rightarrow> bool) option"
  chainTest_opt :: "('d Location \<Rightarrow> bool) option"
  residueTest_opt :: "('d Location \<Rightarrow> bool) option"
  atomTest_opt :: "('d Location \<Rightarrow> bool) option"
  groupBy_opt :: "('d Location \<Rightarrow> 'k) option"

record ('d, 'k) AtomGroupsQueryParams =
  entityTest :: "'d Location \<Rightarrow> bool"
  chainTest :: "'d Location \<Rightarrow> bool"
  residueTest :: "'d Location \<Rightarrow> bool"
  atomTest :: "'d Location \<Rightarrow> bool"
  groupBy :: "'d Location \<Rightarrow> 'k"

definition all_query :: "'d QStructure \<Rightarrow> 'd Selection" where
  "all_query s = Singletons s (atoms s)"

text \<open>\<^verbatim>\<open>atomGroupsLinear\<close>: the builder is threaded through the two loops.\<close>

definition atomGroupsLinear :: "('d Location \<Rightarrow> bool) \<Rightarrow> 'd QStructure \<Rightarrow> 'd Selection" where
  "atomGroupsLinear atomTest' structure =
     (let unitIds' = unitIds (atoms structure);
          builder = foldl (\<lambda>builder i.
                       let unitId = unitIds' ! i;
                           l_unit = qunits structure unitId;
                           oset = unitGetByIndex (atoms structure) i;
                           builder = beginUnit builder;
                           builder = foldl (\<lambda>builder j.
                                        if atomTest' (l_unit, oset ! j) then addToUnit builder (oset ! j)
                                        else builder)
                                      builder [0..<length oset]
                       in commitUnit builder unitId)
                     (LinearBuilder (atoms structure)) [0..<length unitIds']
      in Singletons structure (getSet builder))"

text \<open>
  The loop over the atoms of one residue segment, shared by the two segmented queries; the
  action on an accepted atom is the parameter.
\<close>

definition scanResidue ::
  "('d Location \<Rightarrow> bool) \<Rightarrow> 'd QUnit \<Rightarrow> int list \<Rightarrow> ('b \<Rightarrow> 'd Location \<Rightarrow> 'b) \<Rightarrow> 'b \<Rightarrow> Segment \<Rightarrow> 'b" where
  "scanResidue atomTest' unit oset act builder residueSegment =
     foldl (\<lambda>builder j. if atomTest' (unit, oset ! j) then act builder (unit, oset ! j) else builder)
       builder [seg_start residueSegment..<seg_end residueSegment]"

text \<open>
  The two \<^verbatim>\<open>while\<close> loops over the chain segments and the residue segments of one unit:
  a \<^verbatim>\<open>continue\<close> leaves the builder as it is.
\<close>

definition scanUnit ::
  "('d, 'k) AtomGroupsQueryParams \<Rightarrow> 'd QUnit \<Rightarrow> int list \<Rightarrow> ('b \<Rightarrow> 'd Location \<Rightarrow> 'b) \<Rightarrow> 'b \<Rightarrow> 'b" where
  "scanUnit P unit oset act builder =
     foldl (\<lambda>builder chainSegment.
              if \<not> entityTest P (unit, oset ! seg_start chainSegment)
                 \<or> \<not> chainTest P (unit, oset ! seg_start chainSegment) then builder
              else foldl (\<lambda>builder residueSegment.
                            if \<not> residueTest P (unit, oset ! seg_start residueSegment) then builder
                            else scanResidue (atomTest P) unit oset act builder residueSegment)
                     builder (segmentsWithin (residueSegments (hierarchy unit)) oset chainSegment))
       builder (transientSegments (chainSegments (hierarchy unit)) oset)"

definition atomGroupsSegmented :: "('d, 'k) AtomGroupsQueryParams \<Rightarrow> 'd QStructure \<Rightarrow> 'd Selection" where
  "atomGroupsSegmented P structure =
     (let unitIds' = unitIds (atoms structure);
          builder = foldl (\<lambda>builder i.
                       let unitId = unitIds' ! i;
                           unit = qunits structure unitId;
                           oset = unitGetByIndex (atoms structure) i;
                           builder = beginUnit builder;
                           builder = scanUnit P unit oset (\<lambda>b l. addToUnit b (snd l)) builder
                       in commitUnit builder unitId)
                     (LinearBuilder (atoms structure)) [0..<length unitIds']
      in Singletons structure (getSet builder))"

text \<open>
  \<^verbatim>\<open>LinearGroupingBuilder\<close>. The array and the map hold the same builder objects: the map
  stores the position of the builder in the array.
\<close>

record ('d, 'k) LinearGroupingBuilder =
  builders :: "Builder list"
  builderMap :: "'k \<rightharpoonup> nat"
  gb_structure :: "'d QStructure"

definition new_LinearGroupingBuilder :: "'d QStructure \<Rightarrow> ('d, 'k) LinearGroupingBuilder" where
  "new_LinearGroupingBuilder structure = \<lparr>builders = [], builderMap = Map.empty, gb_structure = structure\<rparr>"

definition LinearGroupingBuilder_add ::
  "('d, 'k) LinearGroupingBuilder \<Rightarrow> 'k \<Rightarrow> nat \<Rightarrow> int \<Rightarrow> ('d, 'k) LinearGroupingBuilder" where
  "LinearGroupingBuilder_add this key unit atom =
     (case builderMap this key of
        None \<Rightarrow>
          let b = LinearBuilder (atoms (gb_structure this));
              i = length (builders this)
          in this\<lparr>builders := builders this @ [Builder_add b unit atom],
                  builderMap := (builderMap this)(key \<mapsto> i)\<rparr>
      | Some i \<Rightarrow> this\<lparr>builders := (builders this)[i := Builder_add (builders this ! i) unit atom]\<rparr>)"

definition allSingletons :: "('d, 'k) LinearGroupingBuilder \<Rightarrow> bool" where
  "allSingletons this = list_all (\<lambda>b. \<not> atomCount b > 1) (builders this)"

definition singletonSelection :: "('d, 'k) LinearGroupingBuilder \<Rightarrow> 'd Selection" where
  "singletonSelection this =
     Singletons (gb_structure this)
       (ofAtoms (map Builder_singleton (builders this)) (atoms (gb_structure this)))"

definition fullSelection :: "('d, 'k) LinearGroupingBuilder \<Rightarrow> 'd Selection" where
  "fullSelection this = Sequence (gb_structure this) (map getSet (builders this))"

definition getSelection :: "('d, 'k) LinearGroupingBuilder \<Rightarrow> 'd Selection" where
  "getSelection this =
     (if length (builders this) = 0 then Empty (gb_structure this)
      else if allSingletons this then singletonSelection this
      else fullSelection this)"

definition atomGroupsGrouped :: "('d, 'k) AtomGroupsQueryParams \<Rightarrow> 'd QStructure \<Rightarrow> 'd Selection" where
  "atomGroupsGrouped P structure =
     (let unitIds' = unitIds (atoms structure);
          builder = foldl (\<lambda>builder i.
                       let unitId = unitIds' ! i;
                           unit = qunits structure unitId;
                           oset = unitGetByIndex (atoms structure) i
                       in scanUnit P unit oset
                            (\<lambda>b l. LinearGroupingBuilder_add b (groupBy P l) unitId (snd l)) builder)
                     (new_LinearGroupingBuilder structure) [0..<length unitIds']
      in getSelection builder)"

text \<open>\<^verbatim>\<open>atoms(params)\<close>: the dispatch. \<^verbatim>\<open>P.constant.true\<close> and \<^verbatim>\<open>P.constant.zero\<close> are the defaults.\<close>

definition normalized :: "('d, 'k::zero) PartialParams \<Rightarrow> ('d, 'k) AtomGroupsQueryParams" where
  "normalized params =
     \<lparr>entityTest = (case entityTest_opt params of Some t \<Rightarrow> t | None \<Rightarrow> (\<lambda>_. True)),
      chainTest = (case chainTest_opt params of Some t \<Rightarrow> t | None \<Rightarrow> (\<lambda>_. True)),
      residueTest = (case residueTest_opt params of Some t \<Rightarrow> t | None \<Rightarrow> (\<lambda>_. True)),
      atomTest = (case atomTest_opt params of Some t \<Rightarrow> t | None \<Rightarrow> (\<lambda>_. True)),
      groupBy = (case groupBy_opt params of Some g \<Rightarrow> g | None \<Rightarrow> (\<lambda>_. 0))\<rparr>"

definition atoms_query :: "('d, 'k::zero) PartialParams option \<Rightarrow> 'd QStructure \<Rightarrow> 'd Selection" where
  "atoms_query params =
     (case params of
        None \<Rightarrow> all_query
      | Some p \<Rightarrow>
          if atomTest_opt p = None \<and> residueTest_opt p = None \<and> chainTest_opt p = None
             \<and> entityTest_opt p = None \<and> groupBy_opt p = None then all_query
          else if atomTest_opt p \<noteq> None \<and> residueTest_opt p = None \<and> chainTest_opt p = None
             \<and> entityTest_opt p = None \<and> groupBy_opt p = None then atomGroupsLinear (the (atomTest_opt p))
          else if groupBy_opt p = None then atomGroupsSegmented (normalized p)
          else atomGroupsGrouped (normalized p))"

text \<open>
  What a selection selects: its groups of atoms, in order. A singleton selection has one
  group per atom, a sequence one group per subset.
\<close>

definition atomsOf :: "AtomSet \<Rightarrow> Atom list" where
  "atomsOf s = concat (map (\<lambda>ua. map (Pair (fst ua)) (snd ua)) s)"

fun selection_groups :: "'d Selection \<Rightarrow> Atom list list" where
  "selection_groups (Empty s) = []"
| "selection_groups (Singletons s oset) = map (\<lambda>a. [a]) (atomsOf oset)"
| "selection_groups (Sequence s sets) = map atomsOf sets"

text \<open>One step of a scan over positions: the action on an accepted atom.\<close>

definition atomStep :: "('d Location \<Rightarrow> bool) \<Rightarrow> 'd QUnit \<Rightarrow> int list \<Rightarrow> ('b \<Rightarrow> 'd Location \<Rightarrow> 'b) \<Rightarrow> 'b \<Rightarrow> nat \<Rightarrow> 'b" where
  "atomStep t unit xs act b j = (if t (unit, xs ! j) then act b (unit, xs ! j) else b)"

section \<open>What the grouping accumulator has to hold\<close>

text \<open>The distinct keys of a sequence, in the order of their first occurrence.\<close>

definition firstSeen :: "'k list \<Rightarrow> 'k list" where
  "firstSeen ks = foldl (\<lambda>acc k. if k \<in> set acc then acc else acc @ [k]) [] ks"

text \<open>The accumulator after a sequence of \<^verbatim>\<open>add(key, unit, atom)\<close> calls.\<close>

definition addAll :: "'d QStructure \<Rightarrow> ('k \<times> nat \<times> int) list \<Rightarrow> ('d, 'k) LinearGroupingBuilder" where
  "addAll structure xs =
     foldl (\<lambda>this x. LinearGroupingBuilder_add this (fst x) (fst (snd x)) (snd (snd x)))
       (new_LinearGroupingBuilder structure) xs"

text \<open>The atoms added under one key, and the element-set builder that received exactly them.\<close>

definition groupAtoms :: "('k \<times> nat \<times> int) list \<Rightarrow> 'k \<Rightarrow> Atom list" where
  "groupAtoms xs k = map snd (filter (\<lambda>x. fst x = k) xs)"

definition groupBuilder :: "'d QStructure \<Rightarrow> ('k \<times> nat \<times> int) list \<Rightarrow> 'k \<Rightarrow> Builder" where
  "groupBuilder structure xs k =
     foldl (\<lambda>b a. Builder_add b (fst a) (snd a)) (LinearBuilder (atoms structure)) (groupAtoms xs k)"

text \<open>
  The locations a segmented scan of one unit accepts, in scan order, and the \<^verbatim>\<open>add\<close> calls
  a grouped query makes.
\<close>

definition acceptedAtoms :: "('d, 'k) AtomGroupsQueryParams \<Rightarrow> 'd QUnit \<Rightarrow> int list \<Rightarrow> 'd Location list" where
  "acceptedAtoms P unit oset =
     concat (map (\<lambda>c.
        if \<not> entityTest P (unit, oset ! seg_start c) \<or> \<not> chainTest P (unit, oset ! seg_start c) then []
        else concat (map (\<lambda>r.
               if \<not> residueTest P (unit, oset ! seg_start r) then []
               else filter (atomTest P) (map (\<lambda>j. (unit, oset ! j)) [seg_start r..<seg_end r]))
             (segmentsWithin (residueSegments (hierarchy unit)) oset c)))
       (transientSegments (chainSegments (hierarchy unit)) oset))"

definition groupedAdds :: "('d, 'k) AtomGroupsQueryParams \<Rightarrow> 'd QStructure \<Rightarrow> ('k \<times> nat \<times> int) list" where
  "groupedAdds P structure =
     concat (map (\<lambda>i. map (\<lambda>l. (groupBy P l, unitIds (atoms structure) ! i, snd l))
                        (acceptedAtoms P (qunits structure (unitIds (atoms structure) ! i))
                                         (unitGetByIndex (atoms structure) i)))
                 [0..<length (unitIds (atoms structure))])"

section \<open>The structure builder and the spatial partitioners\<close>

text \<open>
  Modelled from the spec: \<^verbatim>\<open>idFactory()\<close> (\<^verbatim>\<open>mol-util/id-factory\<close> is not among the
  files), a fresh, monotonically increasing id generator; \<open>sb_invariantId\<close> is the next id
  it hands out, 0 at first. The other fields and the methods are those of the class
  \<^verbatim>\<open>StructureBuilder\<close>.
\<close>

record 'm StructureBuilder =
  sb_units :: "'m Unit list"
  sb_invariantId :: int
  sb_chainGroupId :: int
  sb_inChainGroup :: bool
  sb_props :: "'m Props"

definition new_StructureBuilder :: "'m Props \<Rightarrow> 'm StructureBuilder" where
  "new_StructureBuilder props =
     \<lparr>sb_units = [], sb_invariantId = 0, sb_chainGroupId = -1, sb_inChainGroup = False,
      sb_props = props\<rparr>"

definition beginChainGroup :: "'m StructureBuilder \<Rightarrow> 'm StructureBuilder" where
  "beginChainGroup b = b\<lparr>sb_chainGroupId := sb_chainGroupId b + 1, sb_inChainGroup := True\<rparr>"

definition endChainGroup :: "'m StructureBuilder \<Rightarrow> 'm StructureBuilder" where
  "endChainGroup b = b\<lparr>sb_inChainGroup := False\<rparr>"

definition addUnit ::
  "'m StructureBuilder \<Rightarrow> Kind \<Rightarrow> Model \<Rightarrow> 'm SymmetryOperator \<Rightarrow> ElementIndex list \<Rightarrow> Trait set
     \<Rightarrow> int option \<Rightarrow> 'm StructureBuilder" where
  "addUnit b k mdl op els tr invariantId' =
     (let (iv, next) = (case invariantId' of
                          None \<Rightarrow> (sb_invariantId b, sb_invariantId b + 1)
                        | Some i \<Rightarrow> (i, sb_invariantId b));
          cg = (if sb_inChainGroup b then sb_chainGroupId b else sb_chainGroupId b + 1);
          unit = Unit_create (int (length (sb_units b))) iv cg tr k mdl op els
      in b\<lparr>sb_units := sb_units b @ [unit], sb_invariantId := next, sb_chainGroupId := cg\<rparr>)"

text \<open>
  What the partitioners read of a model: its id and the residue segmentation of its atomic
  hierarchy. The coordinates only reach the grid.
\<close>

record AtomicModel =
  model_id :: Model
  residueAtomSegments :: Segmentation

text \<open>
  \<^verbatim>\<open>GridLookup3D({ x, y, z, indices }, cellCount).buckets\<close> is a parameter: a function from
  the index array and the cell count to the three bucket arrays. A cell count that is
  \<^verbatim>\<open>NaN\<close> is \<open>None\<close>, and so is an array entry that is \<^verbatim>\<open>undefined\<close>.
\<close>

record Buckets =
  offset :: "nat list"
  count :: "nat list"
  array :: "nat list"

type_synonym Grid = "int option list \<Rightarrow> int option \<Rightarrow> Buckets"

text \<open>Reading a JavaScript array: out of range gives \<^verbatim>\<open>undefined\<close>.\<close>

definition js_nth :: "'a list \<Rightarrow> nat \<Rightarrow> 'a option" where
  "js_nth xs i = (if i < length xs then Some (xs ! i) else None)"

text \<open>Storing into an \<^verbatim>\<open>Int32Array\<close>: \<^verbatim>\<open>undefined\<close> becomes 0.\<close>

definition int32_of :: "int option \<Rightarrow> int" where
  "int32_of v = (case v of None \<Rightarrow> 0 | Some x \<Rightarrow> x)"

definition partition_traits :: "bool \<Rightarrow> Buckets \<Rightarrow> Trait set" where
  "partition_traits multiChain B =
     (if multiChain then {MultiChain} else {}) \<union> (if length (offset B) > 1 then {Patitioned} else {})"

text \<open>
  The element array \<^verbatim>\<open>partitionAtomicUnitByAtom\<close> fills for bucket \<open>i\<close>, with \<open>i\<close> below
  \<^verbatim>\<open>offset.length\<close>. A missing \<^verbatim>\<open>count[i]\<close> gives an empty array.
\<close>

definition atomBucket :: "ElementIndex list \<Rightarrow> Buckets \<Rightarrow> nat \<Rightarrow> ElementIndex list" where
  "atomBucket indices B i =
     (let start = offset B ! i;
          n = (case js_nth (count B) i of None \<Rightarrow> 0 | Some c \<Rightarrow> c)
      in map (\<lambda>j. int32_of (case js_nth (array B) (start + j) of
                               None \<Rightarrow> None
                             | Some k \<Rightarrow> js_nth indices k))
             [0..<n])"

definition partitionAtomicUnitByAtom ::
  "'m Ext \<Rightarrow> Grid \<Rightarrow> AtomicModel \<Rightarrow> ElementIndex list \<Rightarrow> 'm StructureBuilder \<Rightarrow> bool
     \<Rightarrow> 'm StructureBuilder" where
  "partitionAtomicUnitByAtom E G mdl indices builder multiChain =
     (let B = G (map Some indices) (Some 8192);
          traits' = partition_traits multiChain B;
          builder = beginChainGroup builder;
          builder = foldl (\<lambda>builder i.
                       addUnit builder Atomic (model_id mdl) (Default E) (atomBucket indices B i) traits' None)
                     builder [0..<length (offset B)]
      in endChainGroup builder)"

text \<open>
  The inner loop of \<^verbatim>\<open>partitionAtomicUnitByResidue\<close>,
  \<^verbatim>\<open>for (let l = startIndices[k], _l = endIndices[k]; l < _l; l++)\<close>: a comparison with
  \<^verbatim>\<open>undefined\<close> is false, so the loop body does not run when either bound is undefined.
\<close>

definition residueRange :: "int option list \<Rightarrow> int option list \<Rightarrow> nat \<Rightarrow> int list" where
  "residueRange startIndices endIndices k =
     (case (js_nth startIndices k, js_nth endIndices k) of
        (Some (Some l), Some (Some l')) \<Rightarrow> [l..l' - 1]
      | _ \<Rightarrow> [])"

definition residueBucket :: "int option list \<Rightarrow> int option list \<Rightarrow> Buckets \<Rightarrow> nat \<Rightarrow> ElementIndex list" where
  "residueBucket startIndices endIndices B i =
     (let start = offset B ! i;
          n = (case js_nth (count B) i of None \<Rightarrow> 0 | Some c \<Rightarrow> c)
      in concat (map (\<lambda>j. case js_nth (array B) (start + j) of
                               None \<Rightarrow> []
                             | Some k \<Rightarrow> residueRange startIndices endIndices k)
                     [0..<n]))"

definition partitionAtomicUnitByResidue ::
  "'m Ext \<Rightarrow> Grid \<Rightarrow> AtomicModel \<Rightarrow> ElementIndex list \<Rightarrow> 'm StructureBuilder \<Rightarrow> bool
     \<Rightarrow> 'm StructureBuilder" where
  "partitionAtomicUnitByResidue E G mdl indices builder multiChain =
     (let residues = transientSegments (residueAtomSegments mdl) indices;
          startIndices = map (\<lambda>residueSegment. js_nth indices (seg_start residueSegment)) residues;
          endIndices = map (\<lambda>residueSegment. js_nth indices (seg_end residueSegment)) residues;
          firstResidueAtomCount =
            (case (js_nth endIndices 0, js_nth startIndices 0) of
               (Some (Some e), Some (Some s)) \<Rightarrow> Some (e - s)
             | _ \<Rightarrow> None);
          gridCellCount = map_option (\<lambda>c. 512 * c) firstResidueAtomCount;
          B = G startIndices gridCellCount;
          traits' = partition_traits multiChain B;
          builder = beginChainGroup builder;
          builder = foldl (\<lambda>builder i.
                       addUnit builder Atomic (model_id mdl) (Default E)
                         (residueBucket startIndices endIndices B i) traits' None)
                     builder [0..<length (offset B)]
      in endChainGroup builder)"

text \<open>The element sets of the units a partitioner added to the builder.\<close>

definition emitted :: "'m StructureBuilder \<Rightarrow> 'm StructureBuilder \<Rightarrow> ElementIndex list list" where
  "emitted before after = map elements (drop (length (sb_units before)) (sb_units after))"

text \<open>
  What a grid has to deliver for \<open>n\<close> positions: the buckets are consecutive slices of the
  permutation array, each within its bounds, and the array lists every position once.
\<close>

definition buckets_ok :: "nat \<Rightarrow> Buckets \<Rightarrow> bool" where
  "buckets_ok n B =
     (length (count B) = length (offset B)
      \<and> list_all (\<lambda>i. offset B ! i + count B ! i \<le> length (array B)) [0..<length (offset B)]
      \<and> mset (array B) = mset [0..<n]
      \<and> concat (map (\<lambda>i. take (count B ! i) (drop (offset B ! i) (array B))) [0..<length (offset B)])
          = array B)"

section \<open>Examples\<close>

subsection \<open>Collaborators and stores\<close>

text \<open>
  Concrete collaborators on which the theorems are instantiated: matrices are 16 integers
  in column-major order, the accepted non-identity transforms are the translations, the
  sort is an insertion sort driven by the comparator.
\<close>

definition I4 :: "int list" where
  "I4 = [1, 0, 0, 0,  0, 1, 0, 0,  0, 0, 1, 0,  0, 0, 0, 1]"

definition ex_isTranslation :: "int list \<Rightarrow> bool" where
  "ex_isTranslation m = (length m = 16 \<and> take 12 m = take 12 I4 \<and> m ! 15 = 1)"

definition ex_compose :: "int list SymmetryOperator \<Rightarrow> int list SymmetryOperator \<Rightarrow> int list SymmetryOperator" where
  "ex_compose a b =
     a\<lparr>matrix := take 12 (matrix a) @ map2 (+) (take 3 (drop 12 (matrix a))) (take 3 (drop 12 (matrix b))) @ [1]\<rparr>"

fun ex_insert :: "('a \<Rightarrow> 'a \<Rightarrow> int) \<Rightarrow> 'a \<Rightarrow> 'a list \<Rightarrow> 'a list" where
  "ex_insert cmp x [] = [x]"
| "ex_insert cmp x (y # ys) = (if cmp x y \<le> 0 then x # y # ys else y # ex_insert cmp x ys)"

definition ex_sort :: "('a \<Rightarrow> 'a \<Rightarrow> int) \<Rightarrow> 'a list \<Rightarrow> 'a list" where
  "ex_sort cmp xs = foldr (ex_insert cmp) xs []"

definition ex_Ext :: "int list Ext" where
  "ex_Ext = \<lparr>isIdentity = (\<lambda>m. m = I4),
             isRotationAndTranslation = ex_isTranslation,
             compose = ex_compose,
             Default = create ''1_555'' I4 [] (-1) (0, 0, 0),
             sortUnits = ex_sort,
             hashFnv32a = (\<lambda>xs. foldl (\<lambda>h x. (h * 16777619 + x) mod 2 ^ 32) 2166136261 xs),
             hash1 = (\<lambda>i. toInt32 (i * 33 + 5)),
             SortedArray_hashCode = (\<lambda>xs. foldl (\<lambda>h x. toInt32 (31 * h + x)) 7 xs)\<rparr>"

definition ex_u0 :: "int list Unit" where
  "ex_u0 = Unit_create 0 0 0 {} Atomic 1 (Default ex_Ext) [0, 1, 2]"

definition ex_u1 :: "int list Unit" where
  "ex_u1 = Unit_create 1 1 1 {} Atomic 1 (Default ex_Ext) [3, 4]"

text \<open>One array holding the two units in descending id order, and nothing else.\<close>

definition ex_store0 :: "int list store" where
  "ex_store0 = \<lparr>arrays = [[ex_u1, ex_u0]], structs = []\<rparr>"

text \<open>The store after \<^verbatim>\<open>new Structure(units)\<close> on that array.\<close>

definition ex_store1 :: "int list store" where
  "ex_store1 = snd (new_Structure ex_Ext ex_store0 0 noProps)"

definition ex_shift :: "int list" where
  "ex_shift = [1, 0, 0, 0,  0, 1, 0, 0,  0, 0, 1, 0,  5, 0, 0, 1]"

definition ex_scale :: "int list" where
  "ex_scale = [2, 0, 0, 0,  0, 2, 0, 0,  0, 0, 2, 0,  0, 0, 0, 1]"

text \<open>The store after \<^verbatim>\<open>Structure.transform\<close> of the first Structure by a translation.\<close>

definition ex_store2 :: "int list store" where
  "ex_store2 = snd (transform ex_Ext ex_store1 0 ex_shift)"

text \<open>
  A trajectory of two models with the first as representative, as \<^verbatim>\<open>ofTrajectory\<close> builds
  it, and a Structure made of the second model's unit with the trajectory as parent.
\<close>

definition ex_uA :: "int list Unit" where
  "ex_uA = Unit_create 0 0 0 {} Atomic 1 (Default ex_Ext) [0, 1]"

definition ex_uB :: "int list Unit" where
  "ex_uB = Unit_create 1 1 1 {} Atomic 2 (Default ex_Ext) [0, 1]"

definition ex_traj0 :: "int list store" where
  "ex_traj0 = \<lparr>arrays = [[ex_uA, ex_uB], [ex_uB]], structs = []\<rparr>"

definition ex_traj1 :: "int list store" where
  "ex_traj1 = snd (new_Structure ex_Ext ex_traj0 0 (noProps\<lparr>representativeModel := Some 1\<rparr>))"

definition ex_traj2 :: "int list store" where
  "ex_traj2 = snd (new_Structure ex_Ext ex_traj1 1 (noProps\<lparr>parent := Some 0\<rparr>))"

text \<open>The same two-model array without any designated model.\<close>

definition ex_multi :: "int list store" where
  "ex_multi = snd (new_Structure ex_Ext ex_traj0 0 noProps)"

text \<open>The same array with the second model designated as master.\<close>

definition ex_master :: "int list store" where
  "ex_master = snd (new_Structure ex_Ext ex_traj0 0 (noProps\<lparr>masterModel := Some 2\<rparr>))"

subsection \<open>A structure for the queries\<close>

text \<open>
  Two units. The first has one chain with two residues, of one atom and of three atoms;
  the second has one chain with one residue of two atoms.
\<close>

definition ex_unit0 :: "unit QUnit" where
  "ex_unit0 = \<lparr>hierarchy = \<lparr>chainSegments = (\<lambda>a. 0), residueSegments = (\<lambda>a. if a < 1 then 0 else 1)\<rparr>,
               unitData = ()\<rparr>"

definition ex_unit1 :: "unit QUnit" where
  "ex_unit1 = \<lparr>hierarchy = \<lparr>chainSegments = (\<lambda>a. 1), residueSegments = (\<lambda>a. 2)\<rparr>, unitData = ()\<rparr>"

definition ex_q :: "unit QStructure" where
  "ex_q = \<lparr>atoms = [(0, [0, 1, 2, 3]), (1, [4, 5])],
           qunits = (\<lambda>i. if i = 0 then ex_unit0 else ex_unit1)\<rparr>"

definition ex_even :: "unit Location \<Rightarrow> bool" where
  "ex_even l = (snd l mod 2 = 0)"

definition ex_residueKey :: "unit Location \<Rightarrow> int" where
  "ex_residueKey l = residueSegments (hierarchy (fst l)) (snd l)"

definition ex_params :: "(unit, int) PartialParams" where
  "ex_params = \<lparr>entityTest_opt = None, chainTest_opt = None,
                residueTest_opt = Some (\<lambda>l. ex_residueKey l \<noteq> 0), atomTest_opt = Some ex_even,
                groupBy_opt = None\<rparr>"

definition ex_allTrue :: "(unit, int) AtomGroupsQueryParams" where
  "ex_allTrue = \<lparr>entityTest = (\<lambda>_. True), chainTest = (\<lambda>_. True), residueTest = (\<lambda>_. True),
                 atomTest = (\<lambda>_. True), groupBy = ex_residueKey\<rparr>"

subsection \<open>A water chain for the partitioners\<close>

text \<open>
  A water chain with explicit hydrogens: two residues of three atoms each, atoms 0 to 5.
  The grid puts the two residues into one bucket.
\<close>

definition ex_water :: AtomicModel where
  "ex_water = \<lparr>model_id = 1, residueAtomSegments = (\<lambda>a. a div 3)\<rparr>"

definition ex_grid :: Grid where
  "ex_grid positions cellCount =
     \<lparr>offset = [0], count = [length positions], array = [0..<length positions]\<rparr>"

section \<open>Properties\<close>

subsection \<open>Identity and invalid transforms\<close>

text \<open>
  C9. When \<^verbatim>\<open>Mat4.isIdentity\<close> accepts the matrix, \<^verbatim>\<open>Structure.transform(s, m)\<close> returns the
  reference \<open>s\<close> itself and the store is the one before the call: nothing was allocated.
\<close>

theorem transform_identity_same_instance:
  "isIdentity E m \<Longrightarrow> transform E st s m = (Inr s, st)"
  by (simp add: transform_def)

theorem transform_identity_same_instance_witness:
  "isIdentity ex_Ext I4 \<and> transform ex_Ext ex_store1 0 I4 = (Inr 0, ex_store1)"
  using transform_identity_same_instance [of ex_Ext I4 ex_store1 0]
  by (simp add: ex_Ext_def)

text \<open>
  C6. A matrix that is neither the identity nor a rotation plus translation makes
  \<^verbatim>\<open>Structure.transform\<close> throw at once; the store at the throw is the store before the
  call, so \<open>s\<close>, its units and every other object are untouched and no Structure was
  created.
\<close>

theorem transform_invalid_throws_unchanged:
  "\<not> isIdentity E m \<Longrightarrow> \<not> isRotationAndTranslation E m \<Longrightarrow>
     transform E st s m = (Inl InvalidTransform, st)"
  by (simp add: transform_def)

theorem transform_invalid_throws_unchanged_witness:
  "\<not> isIdentity ex_Ext ex_scale \<and> \<not> isRotationAndTranslation ex_Ext ex_scale
   \<and> transform ex_Ext ex_store1 0 ex_scale = (Inl InvalidTransform, ex_store1)"
  using transform_invalid_throws_unchanged [of ex_Ext ex_scale ex_store1 0]
  by (simp add: ex_Ext_def ex_scale_def I4_def ex_isTranslation_def)

subsection \<open>The constructor keeps stores well-formed\<close>

lemma initUnits_step_simp:
  "initUnits_step (um, ec, b, l) u =
     (um(unit_id u \<mapsto> u), ec + int (length (elements u)), (b \<and> l \<le> unit_id u), unit_id u)"
  by (auto simp: initUnits_step_def)

lemma scan_foldl:
  "foldl initUnits_step (um, ec, b, l) us = (um', ec', b', l') \<Longrightarrow>
     ec' = ec + countOf (map (\<lambda>u. (unit_id u, elements u)) us) \<and> b' = (b \<and> sorted (l # map unit_id us))"
proof (induction us arbitrary: um ec b l)
  case Nil
  then show ?case by (simp add: countOf_def)
next
  case (Cons u us)
  from Cons.prems have
    "foldl initUnits_step (um(unit_id u \<mapsto> u), ec + int (length (elements u)),
        (b \<and> l \<le> unit_id u), unit_id u) us = (um', ec', b', l')"
    by (simp add: initUnits_step_simp)
  from Cons.IH[OF this] show ?case
    by (auto simp: countOf_def dest: order_trans)
qed

lemma initUnits_scan_eq:
  "initUnits_scan us = (um, ec, b, l) \<Longrightarrow>
     ec = countOf (map (\<lambda>u. (unit_id u, elements u)) us) \<and> b = sorted (map unit_id us)"
proof (cases us)
  case Nil
  assume "initUnits_scan us = (um, ec, b, l)"
  with Nil show ?thesis by (simp add: initUnits_scan_def countOf_def)
next
  case (Cons u us')
  assume "initUnits_scan us = (um, ec, b, l)"
  with Cons have "foldl initUnits_step (Map.empty, 0, True, unit_id u) (u # us') = (um, ec, b, l)"
    by (simp add: initUnits_scan_def)
  from scan_foldl[OF this] Cons show ?thesis by auto
qed

lemma initUnits_eq:
  "initUnits E st a =
     ((fst (initUnits_scan (arrays st ! a)),
       indexUnits (arrays (st\<lparr>arrays := (arrays st)[a := arrayAfter E (arrays st ! a)]\<rparr>) ! a),
       countOf (map (\<lambda>u. (unit_id u, elements u)) (arrays st ! a))),
      st\<lparr>arrays := (arrays st)[a := arrayAfter E (arrays st ! a)]\<rparr>)"
proof -
  obtain um ec b l where sc: "initUnits_scan (arrays st ! a) = (um, ec, b, l)"
    by (cases "initUnits_scan (arrays st ! a)") auto
  from initUnits_scan_eq[OF sc] sc show ?thesis
    by (simp add: initUnits_def arrayAfter_def)
qed

lemma countOf_mset:
  "mset xs = mset ys \<Longrightarrow> countOf (map f xs) = countOf (map f ys)"
proof -
  assume "mset xs = mset ys"
  then have "mset (map (\<lambda>x. int (length (snd (f x)))) xs) = mset (map (\<lambda>x. int (length (snd (f x)))) ys)"
    by (metis mset_map)
  then have "sum_list (map (\<lambda>x. int (length (snd (f x)))) xs) = sum_list (map (\<lambda>x. int (length (snd (f x)))) ys)"
    by (metis sum_mset_sum_list)
  then show ?thesis by (simp add: countOf_def comp_def)
qed

lemma arrayAfter_sorted: "sort_ok E \<Longrightarrow> sorted (map unit_id (arrayAfter E us))"
  by (simp add: arrayAfter_def sort_ok_def)

lemma arrayAfter_mset: "sort_ok E \<Longrightarrow> mset (arrayAfter E us) = mset us"
  by (simp add: arrayAfter_def sort_ok_def)

lemma arrayAfter_id: "sorted (map unit_id us) \<Longrightarrow> arrayAfter E us = us"
  by (simp add: arrayAfter_def)

lemma new_Structure_fst: "fst (new_Structure E st a props) = length (structs st)"
  by (simp add: new_Structure_def initUnits_eq Let_def)

lemma new_Structure_arrays:
  "arrays (snd (new_Structure E st a props)) = (arrays st)[a := arrayAfter E (arrays st ! a)]"
  by (simp add: new_Structure_def initUnits_eq Let_def)

lemma new_Structure_structs:
  "\<exists>S. structs (snd (new_Structure E st a props)) = structs st @ [S]
     \<and> units S = a
     \<and> p_parent S = (case parent props of
                       Some p \<Rightarrow> (case p_parent (structs st ! p) of Some g \<Rightarrow> Some g | None \<Rightarrow> Some p)
                     | None \<Rightarrow> None)
     \<and> p_models S = None \<and> p_model S = None
     \<and> p_hashCode S = -1 \<and> p_transformHash S = -1
     \<and> p_elementCount S = countOf (map (\<lambda>u. (unit_id u, elements u)) (arrays st ! a))
     \<and> p_coordinateSystem S = (case coordinateSystem props of
                                 Some cs \<Rightarrow> cs
                               | None \<Rightarrow> (case parent props of
                                            Some p \<Rightarrow> p_coordinateSystem (structs st ! p)
                                          | None \<Rightarrow> Default E))
     \<and> p_masterModel S = (case masterModel props of
                             Some m \<Rightarrow> Some m
                           | None \<Rightarrow> (case parent props of
                                        Some p \<Rightarrow> p_masterModel (structs st ! p)
                                      | None \<Rightarrow> None))
     \<and> p_representativeModel S = (case representativeModel props of
                             Some m \<Rightarrow> Some m
                           | None \<Rightarrow> (case parent props of
                                        Some p \<Rightarrow> p_representativeModel (structs st ! p)
                                      | None \<Rightarrow> None))"
  by (auto simp: new_Structure_def initUnits_eq Let_def get_parent_def get_coordinateSystem_def
      get_masterModel_def get_representativeModel_def split: option.splits)

lemma wf_struct_mono:
  assumes wf: "wf_struct E st S"
    and arr: "length (arrays st) \<le> length (arrays st')" "arrays st' ! units S = arrays st ! units S"
    and str: "length (structs st) \<le> length (structs st')"
             "\<And>p. p < length (structs st) \<Longrightarrow> p_parent (structs st' ! p) = p_parent (structs st ! p)"
  shows "wf_struct E st' S"
  using wf arr str by (auto simp: wf_struct_def Let_def split: option.splits)

lemma wf_store_new_Structure:
  assumes wf: "wf_store E st" and so: "sort_ok E" and a: "a < length (arrays st)"
    and par: "case parent props of Some p \<Rightarrow> p < length (structs st) | None \<Rightarrow> True"
  shows "wf_store E (snd (new_Structure E st a props))"
proof -
  let ?st' = "snd (new_Structure E st a props)"
  obtain S where S: "structs ?st' = structs st @ [S]" "units S = a"
     "p_parent S = (case parent props of
                       Some p \<Rightarrow> (case p_parent (structs st ! p) of Some g \<Rightarrow> Some g | None \<Rightarrow> Some p)
                     | None \<Rightarrow> None)"
     "p_models S = None" "p_model S = None"
     "p_hashCode S = -1" "p_transformHash S = -1"
     "p_elementCount S = countOf (map (\<lambda>u. (unit_id u, elements u)) (arrays st ! a))"
    using new_Structure_structs[of E st a props] by blast
  have arr: "arrays ?st' = (arrays st)[a := arrayAfter E (arrays st ! a)]"
    by (rule new_Structure_arrays)
  have old: "wf_struct E ?st' T" if T: "T \<in> set (structs st)" for T
  proof -
    from wf T have wT: "wf_struct E st T" by (simp add: wf_store_def list_all_iff)
    then have srt: "sorted (map unit_id (arrays st ! units T))"
      by (simp add: wf_struct_def Let_def)
    have same: "arrays ?st' ! units T = arrays st ! units T"
    proof (cases "units T = a")
      case True
      with srt a show ?thesis by (simp add: arr arrayAfter_id)
    next
      case False
      then show ?thesis by (simp add: arr)
    qed
    show ?thesis
      by (rule wf_struct_mono[OF wT _ same]) (simp_all add: arr S nth_append)
  qed
  have new: "wf_struct E ?st' S"
  proof -
    have na: "arrays ?st' ! units S = arrayAfter E (arrays st ! a)"
      using a by (simp add: arr S)
    have cnt: "countOf (map (\<lambda>u. (unit_id u, elements u)) (arrayAfter E (arrays st ! a)))
             = countOf (map (\<lambda>u. (unit_id u, elements u)) (arrays st ! a))"
      by (rule countOf_mset) (rule arrayAfter_mset[OF so])
    have pp: "case p_parent S of None \<Rightarrow> True
              | Some p \<Rightarrow> p < length (structs ?st') \<and> p_parent (structs ?st' ! p) = None"
    proof (cases "parent props")
      case None
      then show ?thesis by (simp add: S)
    next
      case (Some p)
      with par have p: "p < length (structs st)" by simp
      then have "wf_struct E st (structs st ! p)"
        using wf by (simp add: wf_store_def list_all_length)
      then show ?thesis using Some p
        by (auto simp: S nth_append wf_struct_def Let_def split: option.splits)
    qed
    show ?thesis
      using a pp
      by (simp add: wf_struct_def Let_def na cnt S arrayAfter_sorted[OF so] arr)
  qed
  show ?thesis
    using old new by (auto simp: wf_store_def list_all_iff S)
qed

subsection \<open>The example collaborators\<close>

lemma ex_insert_mset: "mset (ex_insert cmp x xs) = add_mset x (mset xs)"
  by (induction xs) auto

lemma ex_insert_set: "set (ex_insert cmp x xs) = insert x (set xs)"
  by (induction xs) auto

lemma ex_insert_sorted:
  "sorted (map unit_id xs) \<Longrightarrow> sorted (map unit_id (ex_insert cmpUnits x xs))"
  by (induction xs) (auto simp: cmpUnits_def ex_insert_set)

lemma ex_sort_ok: "sort_ok ex_Ext"
proof -
  have m: "mset (ex_sort cmpUnits us) = mset us" for us :: "int list Unit list"
    by (induction us) (simp_all add: ex_sort_def ex_insert_mset)
  have s: "sorted (map unit_id (ex_sort cmpUnits us))" for us :: "int list Unit list"
    by (induction us) (simp_all add: ex_sort_def ex_insert_sorted)
  show ?thesis using m s by (simp add: sort_ok_def ex_Ext_def)
qed

subsection \<open>Ownership of the units array\<close>

text \<open>
  C10. \<^verbatim>\<open>new Structure(units, props)\<close> allocates no array: \<^verbatim>\<open>structure.units\<close> is the
  reference it was given, and no other array changes. An array already in ascending id
  order keeps its content; any other array is overwritten, at its own address, by the
  result of the sort, which is in ascending id order and has the same units.
\<close>

theorem constructor_takes_ownership:
  assumes "a < length (arrays st)" and "sort_ok E"
  shows "units (structs (snd (new_Structure E st a props)) ! fst (new_Structure E st a props)) = a
       \<and> length (arrays (snd (new_Structure E st a props))) = length (arrays st)
       \<and> (\<forall>b. b \<noteq> a \<longrightarrow> arrays (snd (new_Structure E st a props)) ! b = arrays st ! b)
       \<and> (sorted (map unit_id (arrays st ! a)) \<longrightarrow>
            arrays (snd (new_Structure E st a props)) ! a = arrays st ! a)
       \<and> (\<not> sorted (map unit_id (arrays st ! a)) \<longrightarrow>
            arrays (snd (new_Structure E st a props)) ! a = sortUnits E cmpUnits (arrays st ! a)
          \<and> sorted (map unit_id (arrays (snd (new_Structure E st a props)) ! a))
          \<and> mset (arrays (snd (new_Structure E st a props)) ! a) = mset (arrays st ! a))"
proof -
  obtain S where S: "structs (snd (new_Structure E st a props)) = structs st @ [S]" "units S = a"
    using new_Structure_structs[of E st a props] by blast
  show ?thesis
    using assms
    by (simp add: new_Structure_fst new_Structure_arrays S arrayAfter_def sort_ok_def)
qed

lemma ex_Ext_sel:
  "isIdentity ex_Ext = (\<lambda>m. m = I4)"
  "isRotationAndTranslation ex_Ext = ex_isTranslation"
  "compose ex_Ext = ex_compose"
  "Default ex_Ext = create ''1_555'' I4 [] (-1) (0, 0, 0)"
  "sortUnits ex_Ext = ex_sort"
  "hashFnv32a ex_Ext = (\<lambda>xs. foldl (\<lambda>h x. (h * 16777619 + x) mod 2 ^ 32) 2166136261 xs)"
  "hash1 ex_Ext = (\<lambda>i. toInt32 (i * 33 + 5))"
  "SortedArray_hashCode ex_Ext = (\<lambda>xs. foldl (\<lambda>h x. toInt32 (31 * h + x)) 7 xs)"
  by (simp_all add: ex_Ext_def)

lemma ex_arrays0: "arrays ex_store0 = [[ex_u1, ex_u0]]" "structs ex_store0 = []"
  by (simp_all add: ex_store0_def)

lemma ex_ids: "unit_id ex_u0 = 0" "unit_id ex_u1 = 1"
  by (simp_all add: ex_u0_def ex_u1_def Unit_create_def)

lemma ex_sorted10: "ex_sort cmpUnits [ex_u1, ex_u0] = [ex_u0, ex_u1]"
  by (simp add: ex_sort_def cmpUnits_def ex_ids)

theorem constructor_takes_ownership_witness:
  "0 < length (arrays ex_store0) \<and> sort_ok ex_Ext
   \<and> \<not> sorted (map unit_id (arrays ex_store0 ! 0))
   \<and> units (structs (snd (new_Structure ex_Ext ex_store0 0 noProps)) ! 0) = 0
   \<and> arrays ex_store0 ! 0 = [ex_u1, ex_u0]
   \<and> arrays (snd (new_Structure ex_Ext ex_store0 0 noProps)) ! 0 = [ex_u0, ex_u1]"
  using constructor_takes_ownership [of 0 ex_store0 ex_Ext noProps] ex_sort_ok
  by (simp add: ex_arrays0 ex_ids new_Structure_fst ex_sorted10 ex_Ext_sel)

subsection \<open>Provenance\<close>

lemma transform_valid:
  assumes "\<not> isIdentity E m" "isRotationAndTranslation E m"
  shows "transform E st s m =
     (Inr (fst (new_Structure E (pushUnits E st s m) (length (arrays st)) (transformProps E st s m))),
      snd (new_Structure E (pushUnits E st s m) (length (arrays st)) (transformProps E st s m)))"
  using assms
  by (simp add: transform_def new_array_def Let_def split_beta get_coordinateSystem_def
      pushUnits_def transformProps_def)

lemma wf_store_new_array:
  assumes wf: "wf_store E st"
  shows "wf_store E (st\<lparr>arrays := arrays st @ [us]\<rparr>)"
proof -
  have "wf_struct E (st\<lparr>arrays := arrays st @ [us]\<rparr>) T" if T: "T \<in> set (structs st)" for T
  proof -
    from wf T have wT: "wf_struct E st T" by (simp add: wf_store_def list_all_iff)
    then have "units T < length (arrays st)" by (simp add: wf_struct_def Let_def)
    then show ?thesis
      by (intro wf_struct_mono[OF wT]) (simp_all add: nth_append)
  qed
  then show ?thesis by (simp add: wf_store_def list_all_iff)
qed

lemma new_Structure_parent:
  assumes wf: "wf_store E st" and p: "p < length (structs st)" and par: "parent props = Some p"
  shows "get_parent (snd (new_Structure E st a props)) (fst (new_Structure E st a props)) = Some (root st p)
       \<and> root st p < length (structs st)
       \<and> get_parent (snd (new_Structure E st a props)) (root st p) = None"
proof -
  obtain S where S: "structs (snd (new_Structure E st a props)) = structs st @ [S]"
     "p_parent S = (case parent props of
                       Some p \<Rightarrow> (case p_parent (structs st ! p) of Some g \<Rightarrow> Some g | None \<Rightarrow> Some p)
                     | None \<Rightarrow> None)"
    using new_Structure_structs[of E st a props] by blast
  from wf p have "wf_struct E st (structs st ! p)"
    by (simp add: wf_store_def list_all_length)
  then have r: "root st p < length (structs st) \<and> p_parent (structs st ! root st p) = None"
    using p by (auto simp: wf_struct_def Let_def root_def split: option.splits)
  show ?thesis
    using r par by (auto simp: get_parent_def new_Structure_fst S nth_append root_def split: option.splits)
qed

text \<open>
  C8. A Structure constructed with parent \<open>p\<close> stores \<open>p\<close>'s own parent when \<open>p\<close> has one and
  \<open>p\<close> otherwise; the stored parent has no parent, so \<^verbatim>\<open>root\<close> of the new Structure is the
  root of \<open>p\<close>, reached in one hop. \<^verbatim>\<open>Structure.transform(s, m)\<close> on an accepted, non-identity
  matrix returns a Structure whose parent is the root of \<open>s\<close>.
\<close>

theorem parent_is_ultimate_root:
  assumes wf: "wf_store E st"
  shows "(p < length (structs st) \<and> parent props = Some p \<longrightarrow>
           (case new_Structure E st a props of (r, st') \<Rightarrow>
              get_parent st' r = Some (case get_parent st p of Some g \<Rightarrow> g | None \<Rightarrow> p)
            \<and> get_parent st' (the (get_parent st' r)) = None
            \<and> root st' r = root st p
            \<and> get_parent st' (root st' r) = None))
       \<and> (s < length (structs st) \<and> \<not> isIdentity E m \<and> isRotationAndTranslation E m \<longrightarrow>
           (case transform E st s m of
              (Inr r, st') \<Rightarrow> get_parent st' r = Some (root st s) \<and> get_parent st' (root st s) = None
            | (Inl e, st') \<Rightarrow> False))"
proof (intro conjI impI)
  assume h: "p < length (structs st) \<and> parent props = Some p"
  from new_Structure_parent[OF wf, of p props a] h
  show "case new_Structure E st a props of (r, st') \<Rightarrow>
              get_parent st' r = Some (case get_parent st p of Some g \<Rightarrow> g | None \<Rightarrow> p)
            \<and> get_parent st' (the (get_parent st' r)) = None
            \<and> root st' r = root st p
            \<and> get_parent st' (root st' r) = None"
    by (cases "new_Structure E st a props") (auto simp: root_def get_parent_def split: option.splits)
next
  assume h: "s < length (structs st) \<and> \<not> isIdentity E m \<and> isRotationAndTranslation E m"
  have wf1: "wf_store E (pushUnits E st s m)"
    unfolding pushUnits_def by (rule wf_store_new_array[OF wf])
  have t: "transform E st s m =
     (Inr (fst (new_Structure E (pushUnits E st s m) (length (arrays st)) (transformProps E st s m))),
      snd (new_Structure E (pushUnits E st s m) (length (arrays st)) (transformProps E st s m)))"
    using h by (simp add: transform_valid)
  have pp: "parent (transformProps E st s m) = Some s" "structs (pushUnits E st s m) = structs st"
    by (simp_all add: transformProps_def pushUnits_def Let_def)
  from new_Structure_parent[OF wf1, of s "transformProps E st s m" "length (arrays st)"] h pp
  show "case transform E st s m of
              (Inr r, st') \<Rightarrow> get_parent st' r = Some (root st s) \<and> get_parent st' (root st s) = None
            | (Inl e, st') \<Rightarrow> False"
    by (simp add: t root_def)
qed

subsection \<open>The hash code\<close>

lemma wf_store_update:
  assumes wf: "wf_store E st" and s: "s < length (structs st)"
    and S': "wf_struct E st S'" "p_parent S' = p_parent (structs st ! s)"
  shows "wf_store E (st\<lparr>structs := (structs st)[s := S']\<rparr>)"
proof -
  let ?st' = "st\<lparr>structs := (structs st)[s := S']\<rparr>"
  have pp: "p_parent ((structs st)[s := S'] ! p) = p_parent (structs st ! p)" if "p < length (structs st)" for p
    using that S'(2) s by (cases "p = s") simp_all
  have "wf_struct E ?st' T" if T: "T \<in> set (structs ?st')" for T
  proof -
    from T have "T = S' \<or> T \<in> set (structs st)"
      using set_update_subset_insert[of "structs st" s S'] by auto
    then have wT: "wf_struct E st T"
      using S'(1) wf by (auto simp: wf_store_def list_all_iff)
    show ?thesis
      by (rule wf_struct_mono[OF wT]) (simp_all add: pp)
  qed
  then show ?thesis by (simp add: wf_store_def list_all_iff)
qed

lemma wf_nth: "wf_store E st \<Longrightarrow> s < length (structs st) \<Longrightarrow> wf_struct E st (structs st ! s)"
  by (simp add: wf_store_def list_all_length)

lemma foldl_computeHash:
  "foldl (computeHash_step E) h us =
   foldl (\<lambda>h p. toInt32 (31 * toInt32 (31 * h + fst p) + SortedArray_hashCode E (snd p))) h
     (map (\<lambda>u. (unit_id u, elements u)) us)"
  by (induction us arbitrary: h) (simp_all add: computeHash_step_def Let_def)

lemma computeHash_fst:
  "fst (computeHash E st s) = hashOf E (unitPairs st s) (p_elementCount (structs st ! s))"
  by (simp add: computeHash_def hashOf_def unitPairs_def Let_def foldl_computeHash)

lemma computeHash_snd:
  "snd (computeHash E st s) =
     st\<lparr>structs := (structs st)[s := (structs st ! s)\<lparr>p_hashCode := fst (computeHash E st s)\<rparr>]\<rparr>"
  by (simp add: computeHash_def Let_def)

lemma hashOf_not_sentinel: "hashOf E ps n \<noteq> -1"
  by (simp add: hashOf_def Let_def)

lemma hashCode_fst:
  assumes "wf_store E st" "s < length (structs st)"
  shows "fst (hashCode E st s) = hashOf E (unitPairs st s) (countOf (unitPairs st s))"
proof -
  from wf_nth[OF assms] have w: "wf_struct E st (structs st ! s)" .
  then have c: "p_elementCount (structs st ! s) = countOf (unitPairs st s)"
    by (simp add: wf_struct_def Let_def unitPairs_def)
  show ?thesis
  proof (cases "p_hashCode (structs st ! s) = -1")
    case True
    then show ?thesis by (simp add: hashCode_def computeHash_fst c)
  next
    case False
    with w show ?thesis by (simp add: hashCode_def wf_struct_def Let_def unitPairs_def)
  qed
qed

lemma hashCode_snd:
  "snd (hashCode E st s) =
     (if p_hashCode (structs st ! s) \<noteq> -1 then st
      else st\<lparr>structs := (structs st)[s := (structs st ! s)\<lparr>p_hashCode := fst (hashCode E st s)\<rparr>]\<rparr>)"
  by (simp add: hashCode_def computeHash_snd)

lemma hashCode_again:
  assumes "wf_store E st" "s < length (structs st)"
  shows "hashCode E (snd (hashCode E st s)) s = hashCode E st s"
proof (cases "p_hashCode (structs st ! s) = -1")
  case False
  then show ?thesis by (simp add: hashCode_def)
next
  case True
  let ?h = "fst (hashCode E st s)"
  let ?st' = "st\<lparr>structs := (structs st)[s := (structs st ! s)\<lparr>p_hashCode := ?h\<rparr>]\<rparr>"
  have st': "snd (hashCode E st s) = ?st'" using True by (simp add: hashCode_snd)
  have "?h \<noteq> -1" using hashCode_fst[OF assms] by (simp add: hashOf_not_sentinel)
  then have "hashCode E ?st' s = (?h, ?st')"
    using assms(2) by (simp add: hashCode_def)
  then show ?thesis by (simp add: st' prod_eq_iff)
qed

lemma wf_store_hashCode:
  assumes "wf_store E st" "s < length (structs st)"
  shows "wf_store E (snd (hashCode E st s))"
proof (cases "p_hashCode (structs st ! s) = -1")
  case False
  with assms show ?thesis by (simp add: hashCode_snd)
next
  case True
  from wf_nth[OF assms] have w: "wf_struct E st (structs st ! s)" .
  have "wf_struct E st ((structs st ! s)\<lparr>p_hashCode := fst (hashCode E st s)\<rparr>)"
    using w hashCode_fst[OF assms] by (auto simp: wf_struct_def Let_def unitPairs_def split: option.splits)
  from wf_store_update[OF assms this] True show ?thesis by (simp add: hashCode_snd)
qed

subsection \<open>The other caches\<close>

lemma transformHash_fst:
  assumes "wf_store E st" "s < length (structs st)"
  shows "fst (transformHash E st s) = hashFnv32a E (map fst (unitPairs st s))"
proof -
  from wf_nth[OF assms] have w: "wf_struct E st (structs st ! s)" .
  have m: "map fst (unitPairs st s) = map unit_id (arrays st ! units (structs st ! s))"
    by (simp add: unitPairs_def comp_def)
  show ?thesis
    using w by (auto simp: transformHash_def Let_def wf_struct_def m)
qed

lemma transformHash_snd:
  "snd (transformHash E st s) =
     (if p_transformHash (structs st ! s) \<noteq> -1 then st
      else st\<lparr>structs := (structs st)[s := (structs st ! s)\<lparr>p_transformHash := fst (transformHash E st s)\<rparr>]\<rparr>)"
  by (simp add: transformHash_def Let_def)

lemma wf_store_transformHash:
  assumes "wf_store E st" "s < length (structs st)"
  shows "wf_store E (snd (transformHash E st s))"
proof (cases "p_transformHash (structs st ! s) = -1")
  case False
  with assms show ?thesis by (simp add: transformHash_snd)
next
  case True
  from wf_nth[OF assms] have w: "wf_struct E st (structs st ! s)" .
  have "wf_struct E st ((structs st ! s)\<lparr>p_transformHash := fst (transformHash E st s)\<rparr>)"
    using w transformHash_fst[OF assms]
    by (auto simp: wf_struct_def Let_def unitPairs_def comp_def split: option.splits)
  from wf_store_update[OF assms this] True show ?thesis by (simp add: transformHash_snd)
qed

lemma unitPairs_update:
  "units S' = units (structs st ! s) \<Longrightarrow>
   unitPairs (st\<lparr>structs := (structs st)[s := S']\<rparr>) t = unitPairs st t"
  by (cases "t = s"; cases "s < length (structs st)") (simp_all add: unitPairs_def list_update_beyond)

lemma unitPairs_hashCode: "unitPairs (snd (hashCode E st s)) t = unitPairs st t"
  by (simp add: hashCode_snd unitPairs_update)

lemma unitPairs_transformHash: "unitPairs (snd (transformHash E st s)) t = unitPairs st t"
  by (simp add: transformHash_snd unitPairs_update)

lemma get_models_fst:
  assumes "wf_store E st" "s < length (structs st)"
  shows "fst (get_models st s) = getModels_of (arrays st ! units (structs st ! s))"
  using wf_nth[OF assms]
  by (auto simp: get_models_def Let_def wf_struct_def split: option.splits)

lemma get_models_snd:
  "snd (get_models st s) =
     (if p_models (structs st ! s) \<noteq> None then st
      else st\<lparr>structs := (structs st)[s := (structs st ! s)\<lparr>p_models := Some (fst (get_models st s))\<rparr>]\<rparr>)"
  by (auto simp: get_models_def Let_def split: option.splits)

lemma wf_store_get_models:
  assumes "wf_store E st" "s < length (structs st)"
  shows "wf_store E (snd (get_models st s))"
proof (cases "p_models (structs st ! s) = None")
  case False
  with assms show ?thesis by (simp add: get_models_snd)
next
  case True
  from wf_nth[OF assms] have w: "wf_struct E st (structs st ! s)" .
  have "wf_struct E st ((structs st ! s)\<lparr>p_models := Some (fst (get_models st s))\<rparr>)"
    using w get_models_fst[OF assms]
    by (auto simp: wf_struct_def Let_def split: option.splits)
  from wf_store_update[OF assms this] True show ?thesis by (simp add: get_models_snd)
qed

lemma unitPairs_get_models: "unitPairs (snd (get_models st s)) t = unitPairs st t"
  by (simp add: get_models_snd unitPairs_update)

lemma wf_store_transform:
  assumes wf: "wf_store E st" and so: "sort_ok E" and s: "s < length (structs st)"
  shows "wf_store E (snd (transform E st s m))"
proof (cases "\<not> isIdentity E m \<and> isRotationAndTranslation E m")
  case False
  with wf show ?thesis by (auto simp: transform_def)
next
  case True
  have wf1: "wf_store E (pushUnits E st s m)"
    unfolding pushUnits_def by (rule wf_store_new_array[OF wf])
  have "wf_store E (snd (new_Structure E (pushUnits E st s m) (length (arrays st)) (transformProps E st s m)))"
    by (rule wf_store_new_Structure[OF wf1 so]) (simp_all add: pushUnits_def transformProps_def Let_def s)
  with True show ?thesis by (simp add: transform_valid)
qed

subsection \<open>Example stores\<close>

lemma ex_wf0: "wf_store ex_Ext ex_store0"
  by (simp add: wf_store_def ex_store0_def)

lemma ex_wf1: "wf_store ex_Ext ex_store1"
  unfolding ex_store1_def
  by (rule wf_store_new_Structure[OF ex_wf0 ex_sort_ok]) (simp_all add: ex_arrays0 noProps_def)

lemma ex_arrays1: "arrays ex_store1 = [[ex_u0, ex_u1]]"
  by (simp add: ex_store1_def new_Structure_arrays ex_arrays0 arrayAfter_def ex_ids ex_Ext_sel ex_sorted10)

lemma ex_structs1: "length (structs ex_store1) = 1" "units (structs ex_store1 ! 0) = 0"
   "p_parent (structs ex_store1 ! 0) = None" "p_hashCode (structs ex_store1 ! 0) = -1"
   "p_transformHash (structs ex_store1 ! 0) = -1" "p_model (structs ex_store1 ! 0) = None"
   "p_models (structs ex_store1 ! 0) = None"
  using new_Structure_structs[of ex_Ext ex_store0 0 noProps]
  by (auto simp: ex_store1_def ex_arrays0 noProps_def)

lemma ex_pairs1: "unitPairs ex_store1 0 = [(0, [0, 1, 2]), (1, [3, 4])]"
  by (simp add: unitPairs_def ex_structs1 ex_arrays1 ex_u0_def ex_u1_def Unit_create_def)

subsection \<open>The hash code is a function of ids and element lists\<close>

text \<open>
  C1. On every Structure of a well-formed store, \<^verbatim>\<open>hashCode\<close> is the function \<open>hashOf\<close> of
  the ordered (unit id, element list) pairs and of their element count. A second call
  returns the same value and leaves the store as the first call left it; warming the
  transform hash or the model list first does not change it; and two Structures, in the
  same store or not, whose pairs agree have the same hash code whatever their caches hold.
\<close>

theorem hashCode_pure_and_stable:
  assumes "wf_store E st" "s < length (structs st)"
  shows "fst (hashCode E st s) = hashOf E (unitPairs st s) (countOf (unitPairs st s))
       \<and> hashCode E (snd (hashCode E st s)) s = hashCode E st s
       \<and> fst (hashCode E (snd (transformHash E st s)) s) = fst (hashCode E st s)
       \<and> fst (hashCode E (snd (get_models st s)) s) = fst (hashCode E st s)
       \<and> (\<forall>st' t. wf_store E st' \<and> t < length (structs st') \<and> unitPairs st' t = unitPairs st s
             \<longrightarrow> fst (hashCode E st' t) = fst (hashCode E st s))"
proof -
  have l1: "length (structs (snd (transformHash E st s))) = length (structs st)"
    by (simp add: transformHash_snd)
  have l2: "length (structs (snd (get_models st s))) = length (structs st)"
    by (simp add: get_models_snd)
  have a: "fst (hashCode E (snd (transformHash E st s)) s) = fst (hashCode E st s)"
    using hashCode_fst[OF wf_store_transformHash[OF assms], of s] hashCode_fst[OF assms] assms(2)
    by (simp add: l1 unitPairs_transformHash)
  have b: "fst (hashCode E (snd (get_models st s)) s) = fst (hashCode E st s)"
    using hashCode_fst[OF wf_store_get_models[OF assms], of s] hashCode_fst[OF assms] assms(2)
    by (simp add: l2 unitPairs_get_models)
  show ?thesis
    using hashCode_fst[OF assms] hashCode_again[OF assms] a b
    by (simp add: hashCode_fst)
qed


subsection \<open>Example stores with a transformed Structure\<close>

lemma ex_shift_ok: "\<not> isIdentity ex_Ext ex_shift" "isRotationAndTranslation ex_Ext ex_shift"
  by (simp_all add: ex_Ext_sel ex_shift_def I4_def ex_isTranslation_def)

lemma ex_scale_bad: "\<not> isIdentity ex_Ext ex_scale" "\<not> isRotationAndTranslation ex_Ext ex_scale"
  by (simp_all add: ex_Ext_sel ex_scale_def I4_def ex_isTranslation_def)

lemma transform_valid_fst:
  "\<not> isIdentity E m \<Longrightarrow> isRotationAndTranslation E m \<Longrightarrow>
     fst (transform E st s m) = Inr (length (structs st))"
  by (simp add: transform_valid new_Structure_fst pushUnits_def)

lemma ex_wf2: "wf_store ex_Ext ex_store2"
  unfolding ex_store2_def
  by (rule wf_store_transform[OF ex_wf1 ex_sort_ok]) (simp add: ex_structs1)

lemma ex_structs2: "length (structs ex_store2) = 2" "get_parent ex_store2 1 = Some 0"
                   "get_parent ex_store2 0 = None"
proof -
  let ?P = "transformProps ex_Ext ex_store1 0 ex_shift"
  let ?st = "pushUnits ex_Ext ex_store1 0 ex_shift"
  have e: "ex_store2 = snd (new_Structure ex_Ext ?st (length (arrays ex_store1)) ?P)"
    by (simp add: ex_store2_def transform_valid ex_shift_ok)
  obtain S where S: "structs ex_store2 = structs ?st @ [S]"
     "p_parent S = (case parent ?P of
                       Some p \<Rightarrow> (case p_parent (structs ?st ! p) of Some g \<Rightarrow> Some g | None \<Rightarrow> Some p)
                     | None \<Rightarrow> None)"
    unfolding e using new_Structure_structs[of ex_Ext ?st "length (arrays ex_store1)" ?P] by blast
  have st: "structs ?st = structs ex_store1" by (simp add: pushUnits_def)
  have par: "parent ?P = Some 0" by (simp add: transformProps_def Let_def)
  show "length (structs ex_store2) = 2" by (simp add: S st ex_structs1)
  show "get_parent ex_store2 1 = Some 0"
    by (simp add: get_parent_def S st par ex_structs1 nth_append)
  show "get_parent ex_store2 0 = None"
    by (simp add: get_parent_def S st ex_structs1 nth_append)
qed

theorem parent_is_ultimate_root_witness:
  "wf_store ex_Ext ex_store2 \<and> 1 < length (structs ex_store2)
   \<and> \<not> isIdentity ex_Ext ex_shift \<and> isRotationAndTranslation ex_Ext ex_shift
   \<and> get_parent ex_store2 1 = Some 0
   \<and> get_parent (snd (new_Structure ex_Ext ex_store2 0 (noProps\<lparr>parent := Some 1\<rparr>)))
                 (fst (new_Structure ex_Ext ex_store2 0 (noProps\<lparr>parent := Some 1\<rparr>))) = Some 0
   \<and> fst (transform ex_Ext ex_store2 1 ex_shift) = Inr 2
   \<and> get_parent (snd (transform ex_Ext ex_store2 1 ex_shift)) 2 = Some 0"
  using parent_is_ultimate_root [OF ex_wf2, of 1 "noProps\<lparr>parent := Some 1\<rparr>" 0 1 ex_shift]
    ex_wf2 ex_shift_ok transform_valid_fst [OF ex_shift_ok, of ex_store2 1] ex_structs2
  by (simp add: noProps_def split_beta root_def get_parent_def)

subsection \<open>Resolving the model\<close>

lemma getModels_foldl_set:
  "set (foldl (\<lambda>arr u. if model u \<in> set arr then arr else arr @ [model u]) acc us)
     = set acc \<union> model ` set us"
  by (induction us arbitrary: acc) auto

lemma getModels_foldl_distinct:
  "distinct acc \<Longrightarrow>
   distinct (foldl (\<lambda>arr u. if model u \<in> set arr then arr else arr @ [model u]) acc us)"
  by (induction us arbitrary: acc) auto

lemma getModels_of_set: "set (getModels_of us) = model ` set us"
  by (simp add: getModels_of_def getModels_foldl_set)

lemma getModels_of_distinct: "distinct (getModels_of us)"
  by (simp add: getModels_of_def getModels_foldl_distinct)

lemma getModels_of_length: "length (getModels_of us) = card (model ` set us)"
  using distinct_card[OF getModels_of_distinct, of us] by (simp add: getModels_of_set)

lemma getModels_of_single: "model ` set us = {x} \<Longrightarrow> getModels_of us = [x]"
proof -
  assume h: "model ` set us = {x}"
  then have "length (getModels_of us) = 1" by (simp add: getModels_of_length)
  then obtain y where y: "getModels_of us = [y]"
    by (cases "getModels_of us") auto
  with getModels_of_set[of us] h show ?thesis by auto
qed

lemma model_designated:
  "p_model (structs st ! s) = None \<Longrightarrow>
   fst (Structure_model st s) =
     (if p_representativeModel (structs st ! s) \<noteq> None then Inr (p_representativeModel (structs st ! s))
      else if p_masterModel (structs st ! s) \<noteq> None then Inr (p_masterModel (structs st ! s))
      else if length (fst (get_models st s)) > 1 then Inl MultipleModels
      else Inr (if fst (get_models st s) = [] then None else Some (fst (get_models st s) ! 0)))"
  by (simp add: Structure_model_def Let_def split_beta)

lemma resolve_model_cases:
  assumes wf: "wf_store E st" and s: "s < length (structs st)"
  shows "fst (Structure_model st s) =
     (if p_representativeModel (structs st ! s) \<noteq> None then Inr (p_representativeModel (structs st ! s))
      else if p_masterModel (structs st ! s) \<noteq> None then Inr (p_masterModel (structs st ! s))
      else if card (refModels st s) > 1 then Inl MultipleModels
      else Inr (if refModels st s = {} then None else Some (getModels_of (arrays st ! units (structs st ! s)) ! 0)))"
proof (cases "p_model (structs st ! s)")
  case None
  have e: "(getModels_of us = []) = (model ` set us = {})" for us :: "'a Unit list"
    using getModels_of_set[of us] by auto
  from None show ?thesis
    by (simp add: model_designated get_models_fst[OF wf s] getModels_of_length refModels_def e)
next
  case (Some x)
  with wf_nth[OF wf s] have
    w: "p_representativeModel (structs st ! s) = None" "p_masterModel (structs st ! s) = None"
       "getModels_of (arrays st ! units (structs st ! s)) = [x]"
    by (simp_all add: wf_struct_def Let_def)
  have "refModels st s = {x}"
    using getModels_of_set[of "arrays st ! units (structs st ! s)"] w(3) by (simp add: refModels_def)
  with Some w show ?thesis
    by (simp add: Structure_model_def Let_def)
qed

lemma ex_trajw0: "wf_store ex_Ext ex_traj0"
  by (simp add: wf_store_def ex_traj0_def)

lemma ex_traj0_sel: "arrays ex_traj0 = [[ex_uA, ex_uB], [ex_uB]]" "structs ex_traj0 = []"
  by (simp_all add: ex_traj0_def)

lemma ex_AB: "unit_id ex_uA = 0" "unit_id ex_uB = 1" "model ex_uA = 1" "model ex_uB = 2"
  by (simp_all add: ex_uA_def ex_uB_def Unit_create_def)

lemma ex_first:
  assumes "st = snd (new_Structure ex_Ext ex_traj0 0 props)" "parent props = None"
  shows "wf_store ex_Ext st" "length (structs st) = 1" "arrays st = [[ex_uA, ex_uB], [ex_uB]]"
    "units (structs st ! 0) = 0" "p_parent (structs st ! 0) = None"
    "p_representativeModel (structs st ! 0) = representativeModel props"
    "p_masterModel (structs st ! 0) = masterModel props"
    "refModels st 0 = {1, 2}"
proof -
  show "wf_store ex_Ext st"
    unfolding assms(1)
    by (rule wf_store_new_Structure[OF ex_trajw0 ex_sort_ok]) (simp_all add: ex_traj0_sel assms(2))
  obtain S where S: "structs st = [S]" "units S = 0" "p_parent S = None"
     "p_masterModel S = masterModel props" "p_representativeModel S = representativeModel props"
    using new_Structure_structs[of ex_Ext ex_traj0 0 props]
    by (auto simp: assms ex_traj0_sel split: option.splits)
  show a: "arrays st = [[ex_uA, ex_uB], [ex_uB]]"
    by (simp add: assms(1) new_Structure_arrays ex_traj0_sel arrayAfter_def ex_AB)
  show "length (structs st) = 1" "units (structs st ! 0) = 0" "p_parent (structs st ! 0) = None"
    "p_representativeModel (structs st ! 0) = representativeModel props"
    "p_masterModel (structs st ! 0) = masterModel props"
    by (simp_all add: S)
  show "refModels st 0 = {1, 2}"
    by (simp add: refModels_def S a ex_AB)
qed

lemma ex_traj1_facts:
  "wf_store ex_Ext ex_traj1" "length (structs ex_traj1) = 1"
  "arrays ex_traj1 = [[ex_uA, ex_uB], [ex_uB]]"
  "units (structs ex_traj1 ! 0) = 0" "p_parent (structs ex_traj1 ! 0) = None"
  "p_representativeModel (structs ex_traj1 ! 0) = Some 1"
  "p_masterModel (structs ex_traj1 ! 0) = None"
  "refModels ex_traj1 0 = {1, 2}"
  using ex_first[OF ex_traj1_def] by (simp_all add: noProps_def)

lemma ex_multi_facts:
  "wf_store ex_Ext ex_multi" "length (structs ex_multi) = 1"
  "p_representativeModel (structs ex_multi ! 0) = None"
  "p_masterModel (structs ex_multi ! 0) = None"
  "refModels ex_multi 0 = {1, 2}"
  using ex_first[OF ex_multi_def] by (simp_all add: noProps_def)

lemma ex_master_facts:
  "wf_store ex_Ext ex_master" "length (structs ex_master) = 1"
  "p_representativeModel (structs ex_master ! 0) = None"
  "p_masterModel (structs ex_master ! 0) = Some 2"
  "refModels ex_master 0 = {1, 2}"
  using ex_first[OF ex_master_def] by (simp_all add: noProps_def)

lemma ex_traj2_facts:
  "wf_store ex_Ext ex_traj2" "length (structs ex_traj2) = 2"
  "p_representativeModel (structs ex_traj2 ! 1) = Some 1"
  "refModels ex_traj2 1 = {2}"
proof -
  show "wf_store ex_Ext ex_traj2"
    unfolding ex_traj2_def
    by (rule wf_store_new_Structure[OF ex_traj1_facts(1) ex_sort_ok])
       (simp_all add: ex_traj1_facts noProps_def)
  obtain S where S: "structs ex_traj2 = structs ex_traj1 @ [S]" "units S = 1"
     "p_representativeModel S = Some 1"
    using new_Structure_structs[of ex_Ext ex_traj1 1 "noProps\<lparr>parent := Some 0\<rparr>"]
    by (auto simp: ex_traj2_def ex_traj1_facts noProps_def)
  have a: "arrays ex_traj2 = [[ex_uA, ex_uB], [ex_uB]]"
    by (simp add: ex_traj2_def new_Structure_arrays ex_traj1_facts arrayAfter_def)
  show "length (structs ex_traj2) = 2" by (simp add: S ex_traj1_facts)
  show "p_representativeModel (structs ex_traj2 ! 1) = Some 1"
    by (simp add: S nth_append ex_traj1_facts)
  show "refModels ex_traj2 1 = {2}"
    by (simp add: refModels_def S nth_append ex_traj1_facts a ex_AB)
qed

lemma ex_refModels1: "refModels ex_store1 0 = {1}"
  by (simp add: refModels_def ex_structs1 ex_arrays1 ex_u0_def ex_u1_def Unit_create_def)

lemma ex_nodesign1: "p_representativeModel (structs ex_store1 ! 0) = None" "p_masterModel (structs ex_store1 ! 0) = None"
  using new_Structure_structs[of ex_Ext ex_store0 0 noProps]
  by (auto simp: ex_store1_def ex_arrays0 noProps_def)

text \<open>
  C5, amended. The getter \<^verbatim>\<open>model\<close> gives precedence to a designation: a Structure with a
  representative model returns it; one without but with a master model returns the master
  model; with neither, a Structure whose units refer to more than one model throws and one
  whose units refer to exactly one model returns that model. A model designated at
  construction, or inherited from the parent, wins over the single model the units refer
  to.
\<close>

theorem model_resolution:
  assumes wf: "wf_store E st" and s: "s < length (structs st)"
  shows "(p_representativeModel (structs st ! s) = Some r \<longrightarrow>
            fst (Structure_model st s) = Inr (Some r))
       \<and> (p_representativeModel (structs st ! s) = None \<and> p_masterModel (structs st ! s) = Some m \<longrightarrow>
            fst (Structure_model st s) = Inr (Some m))
       \<and> (p_representativeModel (structs st ! s) = None \<and> p_masterModel (structs st ! s) = None
            \<and> card (refModels st s) > 1 \<longrightarrow>
            fst (Structure_model st s) = Inl MultipleModels)
       \<and> (p_representativeModel (structs st ! s) = None \<and> p_masterModel (structs st ! s) = None
            \<and> refModels st s = {x} \<longrightarrow>
            fst (Structure_model st s) = Inr (Some x))"
proof -
  have "getModels_of (arrays st ! units (structs st ! s)) ! 0 = x" if "refModels st s = {x}"
    using getModels_of_single[of "arrays st ! units (structs st ! s)" x] that
    by (simp add: refModels_def)
  then show ?thesis
    by (auto simp: resolve_model_cases[OF wf s])
qed

theorem model_resolution_witness:
  "wf_store ex_Ext ex_traj2 \<and> 1 < length (structs ex_traj2)
   \<and> p_representativeModel (structs ex_traj2 ! 1) = Some 1
   \<and> fst (Structure_model ex_traj2 1) = Inr (Some 1)
   \<and> wf_store ex_Ext ex_master \<and> 0 < length (structs ex_master)
   \<and> p_representativeModel (structs ex_master ! 0) = None
   \<and> p_masterModel (structs ex_master ! 0) = Some 2
   \<and> fst (Structure_model ex_master 0) = Inr (Some 2)
   \<and> wf_store ex_Ext ex_multi \<and> 0 < length (structs ex_multi)
   \<and> p_representativeModel (structs ex_multi ! 0) = None
   \<and> p_masterModel (structs ex_multi ! 0) = None
   \<and> card (refModels ex_multi 0) > 1
   \<and> fst (Structure_model ex_multi 0) = Inl MultipleModels
   \<and> wf_store ex_Ext ex_store1 \<and> 0 < length (structs ex_store1)
   \<and> p_representativeModel (structs ex_store1 ! 0) = None
   \<and> p_masterModel (structs ex_store1 ! 0) = None
   \<and> refModels ex_store1 0 = {1}
   \<and> fst (Structure_model ex_store1 0) = Inr (Some 1)"
  using model_resolution [OF ex_traj2_facts(1), of 1 1]
        model_resolution [OF ex_master_facts(1), of 0 _ 2]
        model_resolution [OF ex_multi_facts(1), of 0]
        model_resolution [OF ex_wf1, of 0 _ _ 1]
        ex_traj2_facts ex_master_facts ex_multi_facts ex_wf1 ex_structs1 ex_nodesign1 ex_refModels1
  by simp

text \<open>
  C5 as stated fails: the second Structure of \<open>ex_traj2\<close> refers to model 2 only and
  inherits the representative model 1, which is what \<^verbatim>\<open>model\<close> returns.
\<close>

theorem single_model_not_returned_counterexample:
  "refModels ex_traj2 1 = {2} \<and> fst (Structure_model ex_traj2 1) = Inr (Some 1)
   \<and> fst (Structure_model ex_traj2 1) \<noteq> Inr (Some 2)"
  using resolve_model_cases[OF ex_traj2_facts(1), of 1] ex_traj2_facts
  by simp

subsection \<open>The transform hash\<close>

lemma transform_unit_keeps:
  "unit_id (transform_unit E m u) = unit_id u" "elements (transform_unit E m u) = elements u"
  by (simp_all add: transform_unit_def applyOperator_def Let_def)

lemma transformHash_unset:
  "p_transformHash (structs st ! s) = -1 \<Longrightarrow>
     fst (transformHash E st s) = hashFnv32a E (map fst (unitPairs st s))"
  by (simp add: transformHash_def Let_def unitPairs_def comp_def)

lemma map_fst_unitPairs:
  "map fst (unitPairs st s) = map unit_id (arrays st ! units (structs st ! s))"
  by (simp add: unitPairs_def comp_def)

lemma transform_result:
  assumes wf: "wf_store E st" and s: "s < length (structs st)"
    and m: "\<not> isIdentity E m" "isRotationAndTranslation E m"
  shows "fst (transform E st s m) = Inr (length (structs st))"
    "unitPairs (snd (transform E st s m)) (length (structs st)) = unitPairs st s"
    "p_transformHash (structs (snd (transform E st s m)) ! length (structs st)) = -1"
    "\<And>t. t < length (structs st) \<Longrightarrow> structs (snd (transform E st s m)) ! t = structs st ! t"
    "\<And>t. t < length (structs st) \<Longrightarrow> unitPairs (snd (transform E st s m)) t = unitPairs st t"
    "arrays (snd (transform E st s m))
       = arrays st @ [map (transform_unit E m) (arrays st ! units (structs st ! s))]"
proof -
  let ?us = "arrays st ! units (structs st ! s)"
  let ?st1 = "pushUnits E st s m"
  let ?P = "transformProps E st s m"
  let ?a = "length (arrays st)"
  have e: "snd (transform E st s m) = snd (new_Structure E ?st1 ?a ?P)"
    using m by (simp add: transform_valid)
  show "fst (transform E st s m) = Inr (length (structs st))"
    using m by (rule transform_valid_fst)
  obtain S where S: "structs (snd (new_Structure E ?st1 ?a ?P)) = structs ?st1 @ [S]"
    "units S = ?a" "p_transformHash S = -1"
    using new_Structure_structs[of E ?st1 ?a ?P] by blast
  have st1: "structs ?st1 = structs st" "arrays ?st1 = arrays st @ [map (transform_unit E m) ?us]"
    by (simp_all add: pushUnits_def)
  from wf_nth[OF wf s] have srt: "sorted (map unit_id ?us)"
    by (simp add: wf_struct_def Let_def)
  have ids: "map unit_id (map (transform_unit E m) ?us) = map unit_id ?us"
    by (simp add: comp_def transform_unit_keeps)
  have arr: "arrays (snd (new_Structure E ?st1 ?a ?P)) = arrays st @ [map (transform_unit E m) ?us]"
    using srt by (simp add: new_Structure_arrays st1 arrayAfter_def ids del: map_map)
  show "arrays (snd (transform E st s m)) = arrays st @ [map (transform_unit E m) ?us]"
    by (simp add: e arr)
  show "unitPairs (snd (transform E st s m)) (length (structs st)) = unitPairs st s"
    by (simp add: e unitPairs_def S st1 arr comp_def transform_unit_keeps)
  show "p_transformHash (structs (snd (transform E st s m)) ! length (structs st)) = -1"
    by (simp add: e S st1)
  show t: "structs (snd (transform E st s m)) ! t = structs st ! t" if "t < length (structs st)" for t
    using that by (simp add: e S st1 nth_append)
  show "unitPairs (snd (transform E st s m)) t = unitPairs st t" if "t < length (structs st)" for t
  proof -
    from wf_nth[OF wf that] have "units (structs st ! t) < length (arrays st)"
      by (simp add: wf_struct_def Let_def)
    then show ?thesis
      using that by (simp add: unitPairs_def t) (simp add: e arr nth_append)
  qed
qed

text \<open>
  C7, amended. \<^verbatim>\<open>transformHash\<close> is \<^verbatim>\<open>hashFnv32a\<close> of the ordered unit ids and of nothing
  else: warming another cache does not change it, and Structures with the same id sequence
  have the same transform hash. \<^verbatim>\<open>Structure.transform\<close> on an accepted, non-identity matrix
  gives every new unit the id of the unit it replaces, so the transformed Structure has the
  transform hash of the original.
\<close>

theorem transformHash_ids_only:
  assumes wf: "wf_store E st" and s: "s < length (structs st)"
  shows "fst (transformHash E st s) = hashFnv32a E (map fst (unitPairs st s))
       \<and> fst (transformHash E (snd (hashCode E st s)) s) = fst (transformHash E st s)
       \<and> (\<forall>st' t. wf_store E st' \<and> t < length (structs st')
                  \<and> map fst (unitPairs st' t) = map fst (unitPairs st s)
             \<longrightarrow> fst (transformHash E st' t) = fst (transformHash E st s))
       \<and> (\<not> isIdentity E m \<and> isRotationAndTranslation E m \<longrightarrow>
            (case transform E st s m of
               (Inr r, st') \<Rightarrow> map fst (unitPairs st' r) = map fst (unitPairs st s)
                             \<and> fst (transformHash E st' r) = fst (transformHash E st s)
                             \<and> fst (transformHash E st' r) = fst (transformHash E st' s)
             | (Inl e, st') \<Rightarrow> False))"
proof -
  have l: "length (structs (snd (hashCode E st s))) = length (structs st)"
    by (simp add: hashCode_snd)
  have a: "fst (transformHash E (snd (hashCode E st s)) s) = fst (transformHash E st s)"
    using transformHash_fst[OF wf_store_hashCode[OF wf s], of s] s
    by (simp add: l unitPairs_hashCode transformHash_fst[OF wf s])
  have b: "case transform E st s m of
               (Inr r, st') \<Rightarrow> map fst (unitPairs st' r) = map fst (unitPairs st s)
                             \<and> fst (transformHash E st' r) = fst (transformHash E st s)
                             \<and> fst (transformHash E st' r) = fst (transformHash E st' s)
             | (Inl e, st') \<Rightarrow> False"
    if m: "\<not> isIdentity E m" "isRotationAndTranslation E m"
  proof -
    note r = transform_result[OF wf s m]
    let ?st' = "snd (transform E st s m)"
    have n: "fst (transformHash E ?st' (length (structs st))) = hashFnv32a E (map fst (unitPairs st s))"
      using transformHash_unset[OF r(3), of E] by (simp add: r(2))
    have "map fst (unitPairs ?st' s) = map fst (unitPairs st s)"
      by (simp add: r(5)[OF s])
    then have "map unit_id (arrays ?st' ! units (structs st ! s))
             = map unit_id (arrays st ! units (structs st ! s))"
      by (simp add: map_fst_unitPairs r(4)[OF s])
    then have o: "fst (transformHash E ?st' s) = fst (transformHash E st s)"
      by (simp add: transformHash_def Let_def r(4)[OF s])
    show ?thesis
      using r(1) r(2) n o by (cases "transform E st s m") (simp add: transformHash_fst[OF wf s])
  qed
  show ?thesis
    using a b by (simp add: transformHash_fst[OF wf s] transformHash_fst)
qed

lemma ex_transformHash1: "fst (transformHash ex_Ext ex_store1 0) = 292984782"
  using transformHash_fst[OF ex_wf1, of 0]
  by (simp add: ex_structs1 ex_pairs1 ex_Ext_sel)

theorem transformHash_ids_only_witness:
  "wf_store ex_Ext ex_store1 \<and> 0 < length (structs ex_store1)
   \<and> \<not> isIdentity ex_Ext ex_shift \<and> isRotationAndTranslation ex_Ext ex_shift
   \<and> fst (transformHash ex_Ext ex_store1 0) = 292984782
   \<and> fst (transform ex_Ext ex_store1 0 ex_shift) = Inr 1
   \<and> fst (transformHash ex_Ext ex_store2 1) = 292984782"
  using transformHash_ids_only [OF ex_wf1, of 0 ex_shift] ex_wf1 ex_shift_ok ex_transformHash1
    transform_valid_fst [OF ex_shift_ok, of ex_store1 0] ex_structs1
  by (cases "transform ex_Ext ex_store1 0 ex_shift") (simp add: ex_store2_def)

lemma ex_arrays2:
  "arrays ex_store2 = [[ex_u0, ex_u1], [transform_unit ex_Ext ex_shift ex_u0, transform_unit ex_Ext ex_shift ex_u1]]"
  using transform_result(6)[OF ex_wf1 _ ex_shift_ok, of 0]
  by (simp add: ex_store2_def ex_structs1 ex_arrays1)

text \<open>
  C7 as stated fails: translating the example Structure yields a Structure whose units
  carry a different operator and whose transform hash is the original's.
\<close>

theorem transformHash_same_after_transform_counterexample:
  "\<not> isIdentity ex_Ext ex_shift \<and> isRotationAndTranslation ex_Ext ex_shift
   \<and> transform ex_Ext ex_store1 0 ex_shift = (Inr 1, ex_store2)
   \<and> matrix (operator (arrays ex_store2 ! 0 ! 0)) = I4
   \<and> matrix (operator (arrays ex_store2 ! 1 ! 0)) = ex_shift
   \<and> fst (transformHash ex_Ext ex_store2 1) = fst (transformHash ex_Ext ex_store2 0)"
proof -
  have s0: "0 < length (structs ex_store1)" by (simp add: ex_structs1)
  note r = transform_result[OF ex_wf1 s0 ex_shift_ok, folded ex_store2_def]
  have t: "transform ex_Ext ex_store1 0 ex_shift = (Inr 1, ex_store2)"
    using r(1) by (simp add: ex_store2_def prod_eq_iff ex_structs1)
  have a: "fst (transformHash ex_Ext ex_store2 1) = hashFnv32a ex_Ext (map fst (unitPairs ex_store1 0))"
    using transformHash_unset[of ex_store2 1 ex_Ext] r(2,3) by (simp add: ex_structs1)
  have b: "fst (transformHash ex_Ext ex_store2 0) = hashFnv32a ex_Ext (map fst (unitPairs ex_store1 0))"
    using transformHash_fst[OF ex_wf2, of 0] r(5)[OF s0] by (simp add: ex_structs2)
  have m0: "matrix (operator (arrays ex_store2 ! 0 ! 0)) = I4"
    by (simp add: ex_arrays2 ex_u0_def Unit_create_def ex_Ext_sel create_def)
  have m1: "matrix (operator (arrays ex_store2 ! 1 ! 0)) = ex_shift"
    by (simp add: ex_arrays2 ex_u0_def Unit_create_def ex_Ext_sel create_def transform_unit_def
        applyOperator_def ex_compose_def I4_def ex_shift_def)
  show ?thesis using ex_shift_ok t a b m0 m1 by simp
qed

subsection \<open>The three query strategies\<close>

lemma foldl_foldl_concat:
  "foldl (\<lambda>b s. foldl f b (g s)) b ss = foldl f b (concat (map g ss))"
  by (induction ss arbitrary: b) simp_all

lemma segmentsFrom_bounds:
  "s \<in> set (segmentsFrom seg a xs) \<Longrightarrow> a \<le> seg_start s \<and> seg_start s < seg_end s \<and> seg_end s \<le> a + length xs"
proof (induction seg a xs rule: segmentsFrom.induct)
  case (1 seg start)
  then show ?case by simp
next
  case (2 seg start x xs)
  let ?n = "length (takeWhile (\<lambda>y. seg y = seg x) xs)"
  have n: "?n \<le> length xs" by (rule length_takeWhile_le)
  from "2.prems" consider
      "s = \<lparr>seg_index = seg x, seg_start = start, seg_end = start + 1 + ?n\<rparr>"
    | "s \<in> set (segmentsFrom seg (start + 1 + ?n) (drop ?n xs))"
    by (auto simp: Let_def)
  then show ?case
  proof cases
    case 1
    with n show ?thesis by simp
  next
    case 2
    from "2.IH"[OF refl 2] n show ?thesis by simp
  qed
qed

lemma upt_split: "a \<le> b \<Longrightarrow> b \<le> c \<Longrightarrow> [a..<b] @ [b..<c] = [a..<c]"
  by (metis le_Suc_ex upt_add_eq_append)

lemma segmentsFrom_tile:
  "concat (map (\<lambda>s. [seg_start s..<seg_end s]) (segmentsFrom seg a xs)) = [a..<a + length xs]"
proof (induction seg a xs rule: segmentsFrom.induct)
  case (1 seg start)
  then show ?case by simp
next
  case (2 seg start x xs)
  let ?n = "length (takeWhile (\<lambda>y. seg y = seg x) xs)"
  have n: "?n \<le> length xs" by (rule length_takeWhile_le)
  have "[start..<start + 1 + ?n] @ [start + 1 + ?n..<start + 1 + ?n + length (drop ?n xs)]
        = [start..<start + 1 + length xs]"
    using n by (intro trans[OF upt_split]) simp_all
  with "2.IH"[OF refl] show ?case
    by (simp add: Let_def del: upt_Suc)
qed

lemma transientSegments_bounds:
  "s \<in> set (transientSegments seg xs) \<Longrightarrow> seg_start s < seg_end s \<and> seg_end s \<le> length xs"
  using segmentsFrom_bounds[of s seg 0 xs] by (simp add: transientSegments_def)

lemma segmentsWithin_tile:
  assumes "seg_start c \<le> seg_end c" "seg_end c \<le> length xs"
  shows "concat (map (\<lambda>s. [seg_start s..<seg_end s]) (segmentsWithin seg xs c)) = [seg_start c..<seg_end c]"
  using assms by (simp add: segmentsWithin_def segmentsFrom_tile)

lemma scanResidue_eq: "scanResidue t unit xs act b r = foldl (atomStep t unit xs act) b [seg_start r..<seg_end r]"
  by (simp add: scanResidue_def atomStep_def[abs_def])

lemma scanChain_true:
  assumes "seg_start c \<le> seg_end c" "seg_end c \<le> length xs"
  shows "foldl (\<lambda>b r. scanResidue t unit xs act b r) b (segmentsWithin seg xs c)
       = foldl (atomStep t unit xs act) b [seg_start c..<seg_end c]"
  by (simp add: scanResidue_eq foldl_foldl_concat segmentsWithin_tile[OF assms])

lemma foldl_cong_set:
  "(\<And>b x. x \<in> set xs \<Longrightarrow> f b x = g b x) \<Longrightarrow> foldl f b xs = foldl g b xs"
  by (induction xs arbitrary: b) simp_all

lemma scanUnit_true:
  assumes "entityTest P = (\<lambda>_. True)" "chainTest P = (\<lambda>_. True)" "residueTest P = (\<lambda>_. True)"
  shows "scanUnit P unit xs act b = foldl (atomStep (atomTest P) unit xs act) b [0..<length xs]"
proof -
  have "scanUnit P unit xs act b
      = foldl (\<lambda>b c. foldl (\<lambda>b r. scanResidue (atomTest P) unit xs act b r) b
                        (segmentsWithin (residueSegments (hierarchy unit)) xs c))
          b (transientSegments (chainSegments (hierarchy unit)) xs)"
    by (simp add: scanUnit_def assms)
  also have "\<dots> = foldl (\<lambda>b c. foldl (atomStep (atomTest P) unit xs act) b [seg_start c..<seg_end c])
          b (transientSegments (chainSegments (hierarchy unit)) xs)"
    by (rule foldl_cong_set) (use transientSegments_bounds in \<open>simp add: scanChain_true less_imp_le\<close>)
  also have "\<dots> = foldl (atomStep (atomTest P) unit xs act) b [0..<length xs]"
    by (simp add: foldl_foldl_concat transientSegments_def segmentsFrom_tile)
  finally show ?thesis .
qed

lemma linear_eq_segmented:
  "atomGroupsLinear t s
     = atomGroupsSegmented \<lparr>entityTest = (\<lambda>_. True), chainTest = (\<lambda>_. True),
                            residueTest = (\<lambda>_. True), atomTest = t, groupBy = g\<rparr> s"
  by (simp add: atomGroupsLinear_def atomGroupsSegmented_def scanUnit_true atomStep_def[abs_def] Let_def cong: if_cong)

lemma scan_all_atoms:
  "n \<le> length xs \<Longrightarrow>
   foldl (\<lambda>b j. addToUnit b (xs ! j)) b [0..<n]
     = b\<lparr>currentUnit := currentUnit b @ take n xs, atomCount := atomCount b + n\<rparr>"
proof (induction n)
  case 0
  then show ?case by simp
next
  case (Suc n)
  then show ?case by (simp add: addToUnit_def take_Suc_conv_app_nth)
qed

lemma collect_unit:
  "commitUnit (foldl (\<lambda>b j. addToUnit b (xs ! j)) (beginUnit b) [0..<length xs]) u
     = (if xs = [] then b\<lparr>currentUnit := []\<rparr>
        else b\<lparr>currentUnit := xs, atomCount := atomCount b + length xs,
               b_units := b_units b @ [(u, xs)]\<rparr>)"
  by (simp add: scan_all_atoms commitUnit_def beginUnit_def)

lemma collect_all_units:
  "n \<le> length as \<Longrightarrow>
   b_units (foldl (\<lambda>b i. commitUnit (foldl (\<lambda>b j. addToUnit b (unitGetByIndex as i ! j)) (beginUnit b)
                                              [0..<length (unitGetByIndex as i)])
                                      (unitIds as ! i))
              b0 [0..<n])
     = b_units b0 @ filter (\<lambda>ua. snd ua \<noteq> []) (take n as)"
proof (induction n)
  case 0
  then show ?case by simp
next
  case (Suc n)
  then have n: "n < length as" by simp
  have e: "unitIds as ! n = fst (as ! n)" "unitGetByIndex as n = snd (as ! n)"
    using n by (simp_all add: unitIds_def unitGetByIndex_def)
  have "(fst (as ! n), snd (as ! n)) = as ! n" by simp
  then show ?case
    using Suc n
    by (simp add: collect_unit take_Suc_conv_app_nth e del: prod.collapse)
qed

lemma atomsOf_nonempty: "atomsOf (filter (\<lambda>ua. snd ua \<noteq> []) as) = atomsOf as"
  by (induction as) (simp_all add: atomsOf_def)

lemma segmented_all_true:
  assumes "entityTest P = (\<lambda>_. True)" "chainTest P = (\<lambda>_. True)" "residueTest P = (\<lambda>_. True)"
    "atomTest P = (\<lambda>_. True)"
  shows "atomGroupsSegmented P s = Singletons s (filter (\<lambda>ua. snd ua \<noteq> []) (atoms s))"
  using collect_all_units[of "length (atoms s)" "atoms s" "LinearBuilder (atoms s)"]
  by (simp add: atomGroupsSegmented_def scanUnit_true[OF assms(1-3)] assms(4) atomStep_def[abs_def]
      Let_def getSet_def LinearBuilder_def unitIds_def)

text \<open>
  C3. The flat strategy returns the very Selection the segmented strategy returns when
  its entity, chain and residue predicates are always true, whatever the structure and
  the atom predicate. The dispatch of \<^verbatim>\<open>atoms\<close> is an optimisation: without a group-by,
  whichever of the three strategies it picks selects the same groups of atoms as the
  segmented strategy run on the normalised parameters, and so does \<^verbatim>\<open>atoms()\<close> without
  parameters.
\<close>

theorem strategies_equivalent:
  "atomGroupsLinear t s
     = atomGroupsSegmented \<lparr>entityTest = (\<lambda>_. True), chainTest = (\<lambda>_. True),
                            residueTest = (\<lambda>_. True), atomTest = t, groupBy = g\<rparr> s
   \<and> (groupBy_opt p = None \<longrightarrow>
        selection_groups (atoms_query (Some p) s)
          = selection_groups (atomGroupsSegmented (normalized p) s))
   \<and> selection_groups (atoms_query None s)
          = selection_groups (atomGroupsSegmented \<lparr>entityTest = (\<lambda>_. True), chainTest = (\<lambda>_. True),
                            residueTest = (\<lambda>_. True), atomTest = (\<lambda>_. True), groupBy = g\<rparr> s)"
proof (intro conjI impI)
  show "atomGroupsLinear t s
     = atomGroupsSegmented \<lparr>entityTest = (\<lambda>_. True), chainTest = (\<lambda>_. True),
                            residueTest = (\<lambda>_. True), atomTest = t, groupBy = g\<rparr> s"
    by (rule linear_eq_segmented)
  show "selection_groups (atoms_query None s)
          = selection_groups (atomGroupsSegmented \<lparr>entityTest = (\<lambda>_. True), chainTest = (\<lambda>_. True),
                            residueTest = (\<lambda>_. True), atomTest = (\<lambda>_. True), groupBy = g\<rparr> s)"
    by (simp add: atoms_query_def all_query_def segmented_all_true atomsOf_nonempty)
  assume g: "groupBy_opt p = None"
  show "selection_groups (atoms_query (Some p) s)
          = selection_groups (atomGroupsSegmented (normalized p) s)"
  proof (cases "atomTest_opt p = None \<and> residueTest_opt p = None \<and> chainTest_opt p = None
             \<and> entityTest_opt p = None")
    case True
    then show ?thesis
      using g by (simp add: atoms_query_def all_query_def segmented_all_true normalized_def atomsOf_nonempty)
  next
    case False
    show ?thesis
    proof (cases "residueTest_opt p = None \<and> chainTest_opt p = None \<and> entityTest_opt p = None")
      case True
      with False obtain t' where t': "atomTest_opt p = Some t'" by auto
      have "normalized p = \<lparr>entityTest = (\<lambda>_. True), chainTest = (\<lambda>_. True),
                            residueTest = (\<lambda>_. True), atomTest = t', groupBy = groupBy (normalized p)\<rparr>"
        using True t' g by (simp add: normalized_def)
      then have "atomGroupsLinear t' s = atomGroupsSegmented (normalized p) s"
        using linear_eq_segmented[of t' s "groupBy (normalized p)"] by simp
      then show ?thesis
        using True t' g by (simp add: atoms_query_def)
    next
      case False
      then show ?thesis using g by (auto simp: atoms_query_def)
    qed
  qed
qed

lemma ex_linear_groups: "selection_groups (atomGroupsLinear ex_even ex_q) = [[(0, 0)], [(0, 2)], [(1, 4)]]"
  by code_simp

lemma ex_dispatch_groups: "selection_groups (atoms_query (Some ex_params) ex_q) = [[(0, 2)], [(1, 4)]]"
  by code_simp

theorem strategies_equivalent_witness:
  "groupBy_opt ex_params = None
   \<and> selection_groups (atoms_query (Some ex_params) ex_q) = [[(0, 2)], [(1, 4)]]
   \<and> selection_groups (atomGroupsSegmented (normalized ex_params) ex_q) = [[(0, 2)], [(1, 4)]]
   \<and> selection_groups (atomGroupsLinear ex_even ex_q) = [[(0, 0)], [(0, 2)], [(1, 4)]]
   \<and> selection_groups (atomGroupsSegmented (ex_allTrue\<lparr>atomTest := ex_even\<rparr>) ex_q)
        = [[(0, 0)], [(0, 2)], [(1, 4)]]"
proof -
  have g: "groupBy_opt ex_params = None" by (simp add: ex_params_def)
  note eq = strategies_equivalent [of ex_even ex_q ex_residueKey ex_params]
  from eq have "groupBy_opt ex_params = None \<longrightarrow>
        selection_groups (atoms_query (Some ex_params) ex_q)
          = selection_groups (atomGroupsSegmented (normalized ex_params) ex_q)"
    by (rule conjunct1[OF conjunct2])
  from this g have "selection_groups (atomGroupsSegmented (normalized ex_params) ex_q)
                = selection_groups (atoms_query (Some ex_params) ex_q)"
    by (rule sym[OF mp])
  moreover from eq have "atomGroupsLinear ex_even ex_q
     = atomGroupsSegmented \<lparr>entityTest = (\<lambda>_. True), chainTest = (\<lambda>_. True),
                            residueTest = (\<lambda>_. True), atomTest = ex_even, groupBy = ex_residueKey\<rparr> ex_q"
    by (rule conjunct1)
  then have "selection_groups (atomGroupsSegmented (ex_allTrue\<lparr>atomTest := ex_even\<rparr>) ex_q)
                = selection_groups (atomGroupsLinear ex_even ex_q)"
    by (simp add: ex_allTrue_def)
  ultimately show ?thesis
    using g by (simp add: ex_linear_groups ex_dispatch_groups)
qed

subsection \<open>The grouping accumulator\<close>

lemma firstSeen_snoc:
  "firstSeen (ks @ [k]) = (if k \<in> set (firstSeen ks) then firstSeen ks else firstSeen ks @ [k])"
  by (simp add: firstSeen_def)

lemma firstSeen_set: "set (firstSeen ks) = set ks"
  by (induction ks rule: rev_induct) (auto simp: firstSeen_snoc, simp add: firstSeen_def)

lemma firstSeen_distinct: "distinct (firstSeen ks)"
  by (induction ks rule: rev_induct) (auto simp: firstSeen_snoc, simp add: firstSeen_def)

lemma index_in_list:
  "k \<in> set ks \<Longrightarrow> length (takeWhile (\<lambda>k'. k' \<noteq> k) ks) < length ks
     \<and> ks ! length (takeWhile (\<lambda>k'. k' \<noteq> k) ks) = k"
  by (induction ks) auto

lemma groupBuilder_snoc:
  "groupBuilder s (xs @ [x]) k =
     (if fst x = k then Builder_add (groupBuilder s xs k) (fst (snd x)) (snd (snd x))
      else groupBuilder s xs k)"
  by (simp add: groupBuilder_def groupAtoms_def)

lemma groupBuilder_none:
  "k \<notin> fst ` set xs \<Longrightarrow> groupBuilder s xs k = LinearBuilder (atoms s)"
proof -
  assume "k \<notin> fst ` set xs"
  then have "filter (\<lambda>x. fst x = k) xs = []" by (auto simp: filter_empty_conv)
  then show ?thesis by (simp add: groupBuilder_def groupAtoms_def)
qed

lemma addAll_snoc:
  "addAll s (xs @ [x]) = LinearGroupingBuilder_add (addAll s xs) (fst x) (fst (snd x)) (snd (snd x))"
  by (simp add: addAll_def)

lemma addAll_invariant:
  "builders (addAll s xs) = map (groupBuilder s xs) (firstSeen (map fst xs))
   \<and> gb_structure (addAll s xs) = s
   \<and> (\<forall>k. builderMap (addAll s xs) k =
        (if k \<in> fst ` set xs then Some (length (takeWhile (\<lambda>k'. k' \<noteq> k) (firstSeen (map fst xs)))) else None))"
proof (induction xs rule: rev_induct)
  case Nil
  show ?case by (simp add: addAll_def new_LinearGroupingBuilder_def firstSeen_def)
next
  case (snoc x xs)
  let ?ks = "firstSeen (map fst xs)"
  let ?st = "addAll s xs"
  obtain k u a where x: "x = (k, u, a)" by (cases x) auto
  have ks: "set ?ks = fst ` set xs" "distinct ?ks" by (simp_all add: firstSeen_set firstSeen_distinct)
  show ?case
  proof (cases "k \<in> fst ` set xs")
    case False
    then have m: "builderMap ?st k = None" using snoc by simp
    have other: "map (groupBuilder s (xs @ [x])) ?ks = map (groupBuilder s xs) ?ks"
      using False ks by (auto simp: groupBuilder_snoc x)
    have tw: "takeWhile (\<lambda>k'. k' \<noteq> k) ?ks = ?ks"
      using False ks by (auto simp: takeWhile_eq_all_conv)
    have tw3: "takeWhile (\<lambda>k'. k' \<noteq> k) (?ks @ [k]) = ?ks"
    proof -
      have "\<forall>x\<in>set ?ks. x \<noteq> k" using False ks by auto
      then show ?thesis by (simp add: takeWhile_append2)
    qed
    have tw2: "takeWhile (\<lambda>k'. k' \<noteq> k') (?ks @ [k]) = takeWhile (\<lambda>k'. k' \<noteq> k') ?ks"
      if "k' \<in> fst ` set xs" for k'
      using that ks by (simp add: takeWhile_append1)
    show ?thesis
      using snoc False m ks
      by (auto simp: addAll_snoc x LinearGroupingBuilder_add_def Let_def firstSeen_snoc other
          groupBuilder_snoc groupBuilder_none tw tw2 tw3)
  next
    case True
    let ?i = "length (takeWhile (\<lambda>k'. k' \<noteq> k) ?ks)"
    from True have m: "builderMap ?st k = Some ?i" using snoc by simp
    from True ks have kin: "k \<in> set ?ks" by simp
    then have i: "?i < length ?ks" "?ks ! ?i = k"
      using index_in_list[of k ?ks] by simp_all
    have upd: "map (groupBuilder s (xs @ [(k, u, a)])) ?ks
             = (map (groupBuilder s xs) ?ks)[?i := Builder_add (groupBuilder s xs k) u a]"
    proof (rule nth_equalityI)
      show "length (map (groupBuilder s (xs @ [(k, u, a)])) ?ks)
          = length ((map (groupBuilder s xs) ?ks)[?i := Builder_add (groupBuilder s xs k) u a])"
        by simp
    next
      fix j assume "j < length (map (groupBuilder s (xs @ [(k, u, a)])) ?ks)"
      then have j: "j < length ?ks" by simp
      show "map (groupBuilder s (xs @ [(k, u, a)])) ?ks ! j
          = (map (groupBuilder s xs) ?ks)[?i := Builder_add (groupBuilder s xs k) u a] ! j"
      proof (cases "j = ?i")
        case True
        with i j show ?thesis by (simp add: groupBuilder_snoc)
      next
        case False
        with i j ks(2) have "?ks ! j \<noteq> k" by (auto simp: nth_eq_iff_index_eq)
        with False j show ?thesis by (simp add: groupBuilder_snoc)
      qed
    qed
    show ?thesis
      using snoc True m kin i
      by (auto simp: addAll_snoc x LinearGroupingBuilder_add_def Let_def firstSeen_snoc upd)
  qed
qed

lemma foldl_filter_map:
  "foldl (\<lambda>b j. if c j then f b (g j) else b) b js = foldl f b (map g (filter c js))"
  by (induction js arbitrary: b) simp_all

lemma foldl_if_nil:
  "foldl (\<lambda>b x. if c x then b else foldl f b (g x)) b xs
     = foldl f b (concat (map (\<lambda>x. if c x then [] else g x) xs))"
  by (induction xs arbitrary: b) simp_all

lemma scanResidue_accepted:
  "scanResidue t unit xs act b r
     = foldl act b (filter t (map (\<lambda>j. (unit, xs ! j)) [seg_start r..<seg_end r]))"
proof -
  have "scanResidue t unit xs act b r
      = foldl act b (map (\<lambda>j. (unit, xs ! j)) (filter (\<lambda>j. t (unit, xs ! j)) [seg_start r..<seg_end r]))"
    unfolding scanResidue_def by (rule foldl_filter_map)
  then show ?thesis by (simp add: filter_map comp_def)
qed

lemma scanUnit_accepted: "scanUnit P unit xs act b = foldl act b (acceptedAtoms P unit xs)"
proof -
  have inner: "foldl (\<lambda>builder r. if \<not> residueTest P (unit, xs ! seg_start r) then builder
                            else scanResidue (atomTest P) unit xs act builder r) b rs
      = foldl act b (concat (map (\<lambda>r. if \<not> residueTest P (unit, xs ! seg_start r) then []
               else filter (atomTest P) (map (\<lambda>j. (unit, xs ! j)) [seg_start r..<seg_end r])) rs))"
    for b rs
    by (simp add: scanResidue_accepted foldl_if_nil cong: if_cong)
  show ?thesis
    unfolding scanUnit_def acceptedAtoms_def
    by (simp add: inner foldl_if_nil cong: if_cong)
qed

lemma atomGroupsGrouped_adds:
  "atomGroupsGrouped P s = getSelection (addAll s (groupedAdds P s))"
proof -
  let ?ids = "unitIds (atoms s)"
  let ?acc = "\<lambda>i. acceptedAtoms P (qunits s (?ids ! i)) (unitGetByIndex (atoms s) i)"
  have "foldl (\<lambda>builder i. foldl (\<lambda>b l. LinearGroupingBuilder_add b (groupBy P l) (?ids ! i) (snd l)) builder (?acc i))
          b is
      = foldl (\<lambda>this x. LinearGroupingBuilder_add this (fst x) (fst (snd x)) (snd (snd x))) b
          (concat (map (\<lambda>i. map (\<lambda>l. (groupBy P l, ?ids ! i, snd l)) (?acc i)) is))"
    for b :: "('a, 'b) LinearGroupingBuilder" and "is"
    by (induction "is" arbitrary: b) (simp_all add: foldl_map)
  then show ?thesis
    by (simp add: atomGroupsGrouped_def Let_def scanUnit_accepted addAll_def groupedAdds_def)
qed

lemma atomsOf_addAtom: "mset (atomsOf (addAtom u a us)) = add_mset (u, a) (mset (atomsOf us))"
  by (induction us) (auto simp: atomsOf_def)

lemma foldl_Builder_add:
  "atomCount (foldl (\<lambda>b a. Builder_add b (fst a) (snd a)) b as) = atomCount b + length as
   \<and> mset (atomsOf (getSet (foldl (\<lambda>b a. Builder_add b (fst a) (snd a)) b as)))
       = mset (atomsOf (getSet b)) + mset as"
  by (induction as arbitrary: b) (simp_all add: Builder_add_def getSet_def atomsOf_addAtom)

lemma groupBuilder_content:
  "atomCount (groupBuilder s xs k) = length (groupAtoms xs k)"
  "mset (atomsOf (getSet (groupBuilder s xs k))) = mset (groupAtoms xs k)"
  using foldl_Builder_add[of "LinearBuilder (atoms s)" "groupAtoms xs k"]
  by (simp_all add: groupBuilder_def LinearBuilder_def getSet_def atomsOf_def)

lemma groupAtoms_nonempty: "k \<in> fst ` set xs \<Longrightarrow> groupAtoms xs k \<noteq> []"
  by (auto simp: groupAtoms_def filter_empty_conv)

lemma allSingletons_iff:
  "allSingletons (addAll s xs) = (\<forall>k\<in>fst ` set xs. length (groupAtoms xs k) = 1)"
proof -
  have "allSingletons (addAll s xs) = (\<forall>k\<in>fst ` set xs. \<not> length (groupAtoms xs k) > 1)"
    using addAll_invariant[of s xs]
    by (simp add: allSingletons_def list_all_iff groupBuilder_content firstSeen_set)
  also have "\<dots> = (\<forall>k\<in>fst ` set xs. length (groupAtoms xs k) = 1)"
  proof (rule ball_cong[OF refl])
    fix k assume "k \<in> fst ` set xs"
    from groupAtoms_nonempty[OF this] have "0 < length (groupAtoms xs k)" by simp
    then show "(\<not> 1 < length (groupAtoms xs k)) = (length (groupAtoms xs k) = 1)" by linarith
  qed
  finally show ?thesis .
qed

lemma groupBuilder_single:
  assumes "groupAtoms xs k = [a]"
  shows "Builder_singleton (groupBuilder s xs k) = a"
  using assms by (cases a) (simp add: groupBuilder_def Builder_singleton_def Builder_add_def LinearBuilder_def)

lemma getSelection_addAll:
  "getSelection (addAll s xs) =
     (if xs = [] then Empty s
      else if \<forall>k\<in>fst ` set xs. length (groupAtoms xs k) = 1
           then Singletons s (ofAtoms (map (\<lambda>k. hd (groupAtoms xs k)) (firstSeen (map fst xs))) (atoms s))
           else Sequence s (map (\<lambda>k. getSet (groupBuilder s xs k)) (firstSeen (map fst xs))))"
proof -
  note inv = addAll_invariant[of s xs]
  have e: "(length (builders (addAll s xs)) = 0) = (xs = [])"
  proof -
    have "(firstSeen (map fst xs) = []) = (set (firstSeen (map fst xs)) = {})" by simp
    also have "\<dots> = (xs = [])" by (simp add: firstSeen_set)
    finally show ?thesis by (simp add: inv)
  qed
  have sing: "map Builder_singleton (map (groupBuilder s xs) (firstSeen (map fst xs)))
            = map (\<lambda>k. hd (groupAtoms xs k)) (firstSeen (map fst xs))"
    if h: "\<forall>k\<in>fst ` set xs. length (groupAtoms xs k) = 1"
  proof -
    have "Builder_singleton (groupBuilder s xs k) = hd (groupAtoms xs k)" if "k \<in> fst ` set xs" for k
    proof -
      from h that have "length (groupAtoms xs k) = 1" by blast
      then obtain a where "groupAtoms xs k = [a]" by (cases "groupAtoms xs k") auto
      then show ?thesis by (simp add: groupBuilder_single)
    qed
    then show ?thesis by (simp add: firstSeen_set)
  qed
  have b: "builders (addAll s xs) = map (groupBuilder s xs) (firstSeen (map fst xs))"
    and g: "gb_structure (addAll s xs) = s"
    using inv by simp_all
  show ?thesis
  proof (cases "xs = []")
    case True
    with e g show ?thesis by (simp add: getSelection_def)
  next
    case False
    with e have ne: "length (builders (addAll s xs)) \<noteq> 0" by simp
    show ?thesis
    proof (cases "\<forall>k\<in>fst ` set xs. length (groupAtoms xs k) = 1")
      case True
      then have "allSingletons (addAll s xs)" by (simp only: allSingletons_iff)
      with ne have "getSelection (addAll s xs) = singletonSelection (addAll s xs)"
        by (simp add: getSelection_def)
      also have "\<dots> = Singletons s (ofAtoms (map Builder_singleton
                   (map (groupBuilder s xs) (firstSeen (map fst xs)))) (atoms s))"
        by (simp only: singletonSelection_def g b)
      also have "\<dots> = Singletons s (ofAtoms (map (\<lambda>k. hd (groupAtoms xs k))
                   (firstSeen (map fst xs))) (atoms s))"
        by (simp only: sing[OF True])
      finally show ?thesis using False True by simp
    next
      case nt: False
      then have "\<not> allSingletons (addAll s xs)" unfolding allSingletons_iff by blast
      with ne False nt show ?thesis
        by (simp add: getSelection_def fullSelection_def g b comp_def)
    qed
  qed
qed

lemma groupAtoms_Cons:
  "groupAtoms (x # xs) k = (if fst x = k then snd x # groupAtoms xs k else groupAtoms xs k)"
  by (simp add: groupAtoms_def)

lemma groupAtoms_empty: "k \<notin> fst ` set xs \<Longrightarrow> groupAtoms xs k = []"
  by (auto simp: groupAtoms_def filter_empty_conv)

lemma all_single_distinct:
  "\<forall>k\<in>fst ` set xs. length (groupAtoms xs k) = 1 \<Longrightarrow> distinct (map fst xs)"
proof (induction xs)
  case Nil
  then show ?case by simp
next
  case (Cons x xs)
  from Cons.prems have "length (groupAtoms (x # xs) (fst x)) = 1" by simp
  then have e: "groupAtoms xs (fst x) = []" by (simp add: groupAtoms_Cons)
  then have nx: "fst x \<notin> fst ` set xs" using groupAtoms_nonempty[of "fst x" xs] by blast
  have "\<forall>k\<in>fst ` set xs. length (groupAtoms xs k) = 1"
  proof
    fix k assume k: "k \<in> fst ` set xs"
    with nx have "k \<noteq> fst x" by blast
    moreover from k have "k \<in> fst ` set (x # xs)" by auto
    with Cons.prems have "length (groupAtoms (x # xs) k) = 1" by blast
    ultimately show "length (groupAtoms xs k) = 1" by (simp add: groupAtoms_Cons)
  qed
  from Cons.IH[OF this] nx show ?case by simp
qed

lemma firstSeen_distinct_id: "distinct ks \<Longrightarrow> firstSeen ks = ks"
  by (induction ks rule: rev_induct) (simp_all add: firstSeen_snoc firstSeen_set, simp add: firstSeen_def)

lemma distinct_groupAtoms:
  "distinct (map fst xs) \<Longrightarrow> x \<in> set xs \<Longrightarrow> groupAtoms xs (fst x) = [snd x]"
proof (induction xs)
  case Nil
  then show ?case by simp
next
  case (Cons y ys)
  show ?case
  proof (cases "x = y")
    case True
    with Cons.prems have "fst y \<notin> fst ` set ys" by simp
    with True show ?thesis by (simp add: groupAtoms_Cons groupAtoms_empty)
  next
    case False
    with Cons.prems have x: "x \<in> set ys" by simp
    with Cons.prems have "fst y \<noteq> fst x" by force
    with Cons x show ?thesis by (simp add: groupAtoms_Cons)
  qed
qed

lemma all_single_atoms:
  assumes "\<forall>k\<in>fst ` set xs. length (groupAtoms xs k) = 1"
  shows "map (\<lambda>k. hd (groupAtoms xs k)) (firstSeen (map fst xs)) = map snd xs"
proof -
  from all_single_distinct[OF assms] have d: "distinct (map fst xs)" .
  have "map (\<lambda>k. hd (groupAtoms xs k)) (map fst xs) = map snd xs"
    using distinct_groupAtoms[OF d] by (simp add: comp_def)
  then show ?thesis by (simp add: firstSeen_distinct_id[OF d])
qed

text \<open>
  C4. After any sequence of \<^verbatim>\<open>add(key, unit, atom)\<close> calls the accumulator holds one
  element-set builder per distinct key, in the order in which the keys were first seen; the
  map sends each key to its builder, which received exactly the atoms added under that key.
  \<^verbatim>\<open>getSelection\<close> returns the empty Selection when nothing was added, the singleton
  Selection of the added atoms when every key received exactly one atom, and otherwise the
  sequence of the per-key sets. A grouped query is such a sequence of calls followed by
  \<^verbatim>\<open>getSelection\<close>.
\<close>

theorem grouping_accumulator_shape:
  "builders (addAll s xs) = map (groupBuilder s xs) (firstSeen (map fst xs))
   \<and> distinct (firstSeen (map fst xs)) \<and> set (firstSeen (map fst xs)) = fst ` set xs
   \<and> (\<forall>k\<in>fst ` set xs.
         builderMap (addAll s xs) k = Some (length (takeWhile (\<lambda>k'. k' \<noteq> k) (firstSeen (map fst xs))))
       \<and> atomCount (groupBuilder s xs k) = length (groupAtoms xs k)
       \<and> mset (atomsOf (getSet (groupBuilder s xs k))) = mset (groupAtoms xs k))
   \<and> getSelection (addAll s xs) =
       (if xs = [] then Empty s
        else if \<forall>k\<in>fst ` set xs. length (groupAtoms xs k) = 1
             then Singletons s (ofAtoms (map snd xs) (atoms s))
             else Sequence s (map (\<lambda>k. getSet (groupBuilder s xs k)) (firstSeen (map fst xs))))
   \<and> atomGroupsGrouped P s = getSelection (addAll s (groupedAdds P s))"
proof -
  have sel: "getSelection (addAll s xs) =
       (if xs = [] then Empty s
        else if \<forall>k\<in>fst ` set xs. length (groupAtoms xs k) = 1
             then Singletons s (ofAtoms (map snd xs) (atoms s))
             else Sequence s (map (\<lambda>k. getSet (groupBuilder s xs k)) (firstSeen (map fst xs))))"
  proof (cases "\<forall>k\<in>fst ` set xs. length (groupAtoms xs k) = 1")
    case True
    show ?thesis unfolding getSelection_addAll all_single_atoms[OF True] by (rule refl)
  next
    case False
    then show ?thesis unfolding getSelection_addAll by (simp only: if_False)
  qed
  show ?thesis
    using addAll_invariant[of s xs] sel
    by (simp add: firstSeen_distinct firstSeen_set groupBuilder_content atomGroupsGrouped_adds)
qed

lemma ex_adds: "groupedAdds ex_allTrue ex_q = [(0, 0, 0), (1, 0, 1), (1, 0, 2), (1, 0, 3), (2, 1, 4), (2, 1, 5)]"
  by code_simp

lemma ex_adds_even: "groupedAdds (ex_allTrue\<lparr>atomTest := ex_even\<rparr>) ex_q = [(0, 0, 0), (1, 0, 2), (2, 1, 4)]"
  by code_simp

lemma ex_firstSeen: "firstSeen (map fst [(0::int, 0::nat, 0::int), (1, 0, 1), (1, 0, 2), (1, 0, 3), (2, 1, 4), (2, 1, 5)]) = [0, 1, 2]"
  by code_simp

lemma ex_group_sets:
  "map (\<lambda>k. getSet (groupBuilder ex_q [(0::int, 0, 0), (1, 0, 1), (1, 0, 2), (1, 0, 3), (2, 1, 4), (2, 1, 5)] k)) [0, 1, 2]
     = [[(0, [0])], [(0, [1, 2, 3])], [(1, [4, 5])]]"
  by code_simp

lemma ex_not_single:
  "\<not> (\<forall>k\<in>fst ` set [(0::int, 0::nat, 0::int), (1, 0, 1), (1, 0, 2), (1, 0, 3), (2, 1, 4), (2, 1, 5)].
         length (groupAtoms [(0, 0, 0), (1, 0, 1), (1, 0, 2), (1, 0, 3), (2, 1, 4), (2, 1, 5)] k) = 1)"
  by (simp add: groupAtoms_def)

lemma ex_single:
  "\<forall>k\<in>fst ` set [(0::int, 0::nat, 0::int), (1, 0, 2), (2, 1, 4)].
         length (groupAtoms [(0, 0, 0), (1, 0, 2), (2, 1, 4)] k) = 1"
  by (simp add: groupAtoms_def)

lemma ex_ofAtoms: "ofAtoms (map snd [(0::int, 0::nat, 0::int), (1, 0, 2), (2, 1, 4)]) (atoms ex_q) = [(0, [0, 2]), (1, [4])]"
  by code_simp

theorem grouping_accumulator_shape_witness:
  "groupedAdds ex_allTrue ex_q = [(0, 0, 0), (1, 0, 1), (1, 0, 2), (1, 0, 3), (2, 1, 4), (2, 1, 5)]
   \<and> length (builders (addAll ex_q (groupedAdds ex_allTrue ex_q))) = 3
   \<and> atomGroupsGrouped ex_allTrue ex_q
       = Sequence ex_q [[(0, [0])], [(0, [1, 2, 3])], [(1, [4, 5])]]
   \<and> groupedAdds (ex_allTrue\<lparr>atomTest := ex_even\<rparr>) ex_q = [(0, 0, 0), (1, 0, 2), (2, 1, 4)]
   \<and> atomGroupsGrouped (ex_allTrue\<lparr>atomTest := ex_even\<rparr>) ex_q
       = Singletons ex_q [(0, [0, 2]), (1, [4])]
   \<and> getSelection (addAll ex_q ([] :: (int \<times> nat \<times> int) list)) = Empty ex_q"
proof -
  note a = grouping_accumulator_shape [of ex_q "groupedAdds ex_allTrue ex_q" ex_allTrue,
             unfolded ex_adds ex_firstSeen]
  note b = grouping_accumulator_shape [of ex_q "groupedAdds (ex_allTrue\<lparr>atomTest := ex_even\<rparr>) ex_q"
             "ex_allTrue\<lparr>atomTest := ex_even\<rparr>", unfolded ex_adds_even]
  note c = grouping_accumulator_shape [of ex_q "[] :: (int \<times> nat \<times> int) list" ex_allTrue]
  note a_builders = a[THEN conjunct1]
  note a_sel = a[THEN conjunct2, THEN conjunct2, THEN conjunct2, THEN conjunct2, THEN conjunct1]
  note a_query = a[THEN conjunct2, THEN conjunct2, THEN conjunct2, THEN conjunct2, THEN conjunct2]
  note b_sel = b[THEN conjunct2, THEN conjunct2, THEN conjunct2, THEN conjunct2, THEN conjunct1]
  note b_query = b[THEN conjunct2, THEN conjunct2, THEN conjunct2, THEN conjunct2, THEN conjunct2]
  note c_sel = c[THEN conjunct2, THEN conjunct2, THEN conjunct2, THEN conjunct2, THEN conjunct1]
  have 1: "length (builders (addAll ex_q (groupedAdds ex_allTrue ex_q))) = 3"
    unfolding ex_adds a_builders by simp
  have 2: "atomGroupsGrouped ex_allTrue ex_q = Sequence ex_q [[(0, [0])], [(0, [1, 2, 3])], [(1, [4, 5])]]"
    unfolding a_query a_sel ex_group_sets using ex_not_single by simp
  have 3: "atomGroupsGrouped (ex_allTrue\<lparr>atomTest := ex_even\<rparr>) ex_q = Singletons ex_q [(0, [0, 2]), (1, [4])]"
    unfolding b_query b_sel ex_ofAtoms using ex_single by simp
  have 4: "getSelection (addAll ex_q ([] :: (int \<times> nat \<times> int) list)) = Empty ex_q"
    unfolding c_sel by simp
  show ?thesis using 1 2 3 4 ex_adds ex_adds_even by simp
qed

subsection \<open>The spatial partitioners\<close>

lemma addUnit_elements:
  "map elements (sb_units (addUnit b k mdl op els tr iv)) = map elements (sb_units b) @ [els]"
  by (simp add: addUnit_def Let_def Unit_create_def split: option.splits prod.splits)

lemma foldl_addUnit_elements:
  "map elements (sb_units (foldl (\<lambda>b i. addUnit b k mdl op (f i) tr iv) b is))
     = map elements (sb_units b) @ map f is"
  by (induction "is" arbitrary: b) (simp_all add: addUnit_elements)

lemma emitted_byAtom:
  "emitted b (partitionAtomicUnitByAtom E G mdl indices b mc)
     = map (atomBucket indices (G (map Some indices) (Some 8192)))
           [0..<length (offset (G (map Some indices) (Some 8192)))]"
proof -
  let ?B = "G (map Some indices) (Some 8192)"
  have "map elements (sb_units (partitionAtomicUnitByAtom E G mdl indices b mc))
      = map elements (sb_units b) @ map (atomBucket indices ?B) [0..<length (offset ?B)]"
    by (simp add: partitionAtomicUnitByAtom_def Let_def endChainGroup_def
        foldl_addUnit_elements beginChainGroup_def)
  then have "drop (length (sb_units b)) (map elements (sb_units (partitionAtomicUnitByAtom E G mdl indices b mc)))
      = map (atomBucket indices ?B) [0..<length (offset ?B)]"
    by simp
  then show ?thesis by (simp add: emitted_def drop_map)
qed

lemma emitted_byResidue:
  "emitted b (partitionAtomicUnitByResidue E G mdl indices b mc)
     = (let residues = transientSegments (residueAtomSegments mdl) indices;
            S = map (\<lambda>r. js_nth indices (seg_start r)) residues;
            T = map (\<lambda>r. js_nth indices (seg_end r)) residues;
            c = map_option (\<lambda>c. 512 * c)
                  (case (js_nth T 0, js_nth S 0) of
                     (Some (Some e), Some (Some s)) \<Rightarrow> Some (e - s) | _ \<Rightarrow> None);
            B = G S c
        in map (residueBucket S T B) [0..<length (offset B)])"
proof -
  define residues where "residues = transientSegments (residueAtomSegments mdl) indices"
  define S where "S = map (\<lambda>r. js_nth indices (seg_start r)) residues"
  define T where "T = map (\<lambda>r. js_nth indices (seg_end r)) residues"
  define c where "c = map_option (\<lambda>c. 512 * c)
                  (case (js_nth T 0, js_nth S 0) of
                     (Some (Some e), Some (Some s)) \<Rightarrow> Some (e - s) | _ \<Rightarrow> None)"
  define B where "B = G S c"
  have "map elements (sb_units (partitionAtomicUnitByResidue E G mdl indices b mc))
      = map elements (sb_units b) @ map (residueBucket S T B) [0..<length (offset B)]"
    unfolding partitionAtomicUnitByResidue_def Let_def
    by (simp add: endChainGroup_def foldl_addUnit_elements beginChainGroup_def
        residues_def S_def T_def c_def B_def)
  then have "drop (length (sb_units b)) (map elements (sb_units (partitionAtomicUnitByResidue E G mdl indices b mc)))
      = map (residueBucket S T B) [0..<length (offset B)]"
    by simp
  then show ?thesis
    by (simp add: emitted_def drop_map Let_def residues_def S_def T_def c_def B_def)
qed

lemma residueRange_mem:
  "x \<in> set (residueRange S T k) \<Longrightarrow>
     \<exists>l l'. js_nth S k = Some (Some l) \<and> js_nth T k = Some (Some l') \<and> l \<le> x \<and> x < l'"
proof (cases "js_nth S k")
  case None
  assume "x \<in> set (residueRange S T k)"
  with None show ?thesis by (simp add: residueRange_def)
next
  case (Some a)
  assume x: "x \<in> set (residueRange S T k)"
  show ?thesis
  proof (cases a)
    case None
    with Some x show ?thesis by (simp add: residueRange_def)
  next
    case l: (Some l)
    show ?thesis
    proof (cases "js_nth T k")
      case None
      with Some l x show ?thesis by (simp add: residueRange_def)
    next
      case T: (Some b)
      show ?thesis
      proof (cases b)
        case None
        with Some l T x show ?thesis by (simp add: residueRange_def)
      next
        case l': (Some l')
        with Some l T x show ?thesis by (simp add: residueRange_def)
      qed
    qed
  qed
qed

lemma residueRange_below:
  assumes x: "x \<in> set (residueRange S (map (\<lambda>r. js_nth indices (seg_end r)) residues) k)"
    and srt: "sorted indices"
  shows "x < last indices \<and> indices \<noteq> []"
proof -
  let ?T = "map (\<lambda>r. js_nth indices (seg_end r)) residues"
  from residueRange_mem[OF x] obtain l' where b: "js_nth ?T k = Some (Some l')" "x \<le> l' - 1"
    by auto
  then have k: "k < length residues" and e: "js_nth indices (seg_end (residues ! k)) = Some l'"
    by (auto simp: js_nth_def split: if_splits)
  then have j: "seg_end (residues ! k) < length indices" and l': "l' = indices ! seg_end (residues ! k)"
    by (auto simp: js_nth_def split: if_splits)
  from j have ne: "indices \<noteq> []" by auto
  have "indices ! seg_end (residues ! k) \<le> indices ! (length indices - 1)"
    using srt j by (intro sorted_nth_mono) auto
  then have "l' \<le> last indices" using ne by (simp add: l' last_conv_nth)
  with b(2) ne show ?thesis by simp
qed

lemma residueBucket_below:
  assumes x: "x \<in> set (residueBucket S (map (\<lambda>r. js_nth indices (seg_end r)) residues) B i)"
    and srt: "sorted indices"
  shows "x < last indices"
proof -
  from x obtain k where "x \<in> set (residueRange S (map (\<lambda>r. js_nth indices (seg_end r)) residues) k)"
    by (auto simp: residueBucket_def Let_def split: option.splits)
  from residueRange_below[OF this srt] show ?thesis by simp
qed

text \<open>
  Whatever the grid returns, the per-residue partitioner never emits the last index of a
  sorted input: the end of the last residue is read at \<^verbatim>\<open>indices[residueSegment.end]\<close>, one
  past the array, and the loop over an undefined bound does not run.
\<close>

lemma byResidue_misses_last:
  assumes srt: "sorted indices"
  shows "last indices \<notin> set (concat (emitted b (partitionAtomicUnitByResidue E G mdl indices b mc)))"
proof
  assume "last indices \<in> set (concat (emitted b (partitionAtomicUnitByResidue E G mdl indices b mc)))"
  then obtain S B i where
    "last indices \<in> set (residueBucket S
        (map (\<lambda>r. js_nth indices (seg_end r)) (transientSegments (residueAtomSegments mdl) indices)) B i)"
    by (auto simp: emitted_byResidue Let_def)
  from residueBucket_below[OF this srt] show False by simp
qed

lemma atomBucket_ok:
  assumes ok: "buckets_ok (length indices) B" and i: "i < length (offset B)"
  shows "atomBucket indices B i = map (\<lambda>k. indices ! k) (take (count B ! i) (drop (offset B ! i) (array B)))"
proof -
  from ok i have c: "i < length (count B)" and le: "offset B ! i + count B ! i \<le> length (array B)"
    by (auto simp: buckets_ok_def list_all_iff)
  from ok have "set (array B) = set [0..<length indices]"
    unfolding buckets_ok_def by (metis mset_eq_setD)
  then have rng: "\<And>p. p < length (array B) \<Longrightarrow> array B ! p < length indices"
    by (metis atLeastLessThan_iff nth_mem set_upt)
  have "atomBucket indices B i = map (\<lambda>j. indices ! (array B ! (offset B ! i + j))) [0..<count B ! i]"
    using c le rng by (auto simp: atomBucket_def js_nth_def int32_of_def Let_def)
  also have "\<dots> = map (\<lambda>k. indices ! k) (take (count B ! i) (drop (offset B ! i) (array B)))"
    using le by (intro nth_equalityI) auto
  finally show ?thesis .
qed

text \<open>
  The per-atom partitioner does partition its input: with a grid that delivers consecutive
  buckets over a permutation of the positions, the emitted element arrays together hold
  every input index exactly once.
\<close>

lemma byAtom_partitions:
  assumes ok: "buckets_ok (length indices) (G (map Some indices) (Some 8192))"
  shows "mset (concat (emitted b (partitionAtomicUnitByAtom E G mdl indices b mc))) = mset indices"
proof -
  let ?B = "G (map Some indices) (Some 8192)"
  have "concat (emitted b (partitionAtomicUnitByAtom E G mdl indices b mc))
      = concat (map (\<lambda>i. map (\<lambda>k. indices ! k) (take (count ?B ! i) (drop (offset ?B ! i) (array ?B))))
                [0..<length (offset ?B)])"
    unfolding emitted_byAtom
    by (rule arg_cong[of _ _ concat], rule map_cong[OF refl]) (simp add: atomBucket_ok[OF ok])
  also have "\<dots> = map (\<lambda>k. indices ! k)
       (concat (map (\<lambda>i. take (count ?B ! i) (drop (offset ?B ! i) (array ?B))) [0..<length (offset ?B)]))"
    by (simp add: map_concat comp_def)
  also have "\<dots> = map (\<lambda>k. indices ! k) (array ?B)"
    using ok by (simp add: buckets_ok_def)
  finally have "mset (concat (emitted b (partitionAtomicUnitByAtom E G mdl indices b mc)))
      = image_mset (\<lambda>k. indices ! k) (mset (array ?B))"
    by simp
  also have "\<dots> = image_mset (\<lambda>k. indices ! k) (mset [0..<length indices])"
    using ok by (simp add: buckets_ok_def)
  also have "\<dots> = mset (map (\<lambda>k. indices ! k) [0..<length indices])" by simp
  also have "\<dots> = mset indices" by (simp add: map_nth)
  finally show ?thesis .
qed

lemma ex_grid_ok: "buckets_ok 2 (ex_grid [Some 0, Some 3] (Some 1536))"
  by (simp add: buckets_ok_def ex_grid_def upt_rec[of 0 2] upt_rec[of 1 2] upt_rec[of "Suc 0" 2] del: mset_upt)

lemma ex_byResidue:
  "emitted (new_StructureBuilder noProps)
     (partitionAtomicUnitByResidue ex_Ext ex_grid ex_water [0, 1, 2, 3, 4, 5] (new_StructureBuilder noProps) False)
   = [[0, 1, 2]]"
  by code_simp

lemma ex_byAtom:
  "emitted (new_StructureBuilder noProps)
     (partitionAtomicUnitByAtom ex_Ext ex_grid ex_water [0, 1, 2, 3, 4, 5] (new_StructureBuilder noProps) False)
   = [[0, 1, 2, 3, 4, 5]]"
  by code_simp

text \<open>
  C2. The union of the emitted element sets should be the input index set for both
  partitioners. On the water chain of two residues of three atoms, with the grid putting
  both residues into one bucket, the per-atom partitioner emits all six atoms and the
  per-residue partitioner emits the unit \<open>[0, 1, 2]\<close> only: the atoms 3, 4 and 5 of the last
  residue are in no unit.
\<close>

theorem byResidue_drops_last_residue:
  "buckets_ok 2 (ex_grid [Some 0, Some 3] (Some 1536))
   \<and> emitted (new_StructureBuilder noProps)
        (partitionAtomicUnitByResidue ex_Ext ex_grid ex_water [0, 1, 2, 3, 4, 5]
           (new_StructureBuilder noProps) False)
      = [[0, 1, 2]]
   \<and> emitted (new_StructureBuilder noProps)
        (partitionAtomicUnitByAtom ex_Ext ex_grid ex_water [0, 1, 2, 3, 4, 5]
           (new_StructureBuilder noProps) False)
      = [[0, 1, 2, 3, 4, 5]]"
  using ex_grid_ok ex_byResidue ex_byAtom by simp

subsection \<open>Every operation keeps the store well-formed\<close>

text \<open>
  Together with the lemmas on the constructor, the getters and \<^verbatim>\<open>Structure.transform\<close>:
  a store built from arrays by these operations is well-formed.
\<close>

lemma wf_store_empty: "wf_store E \<lparr>arrays = as, structs = []\<rparr>"
  by (simp add: wf_store_def)

lemma wf_store_Structure_model:
  assumes wf: "wf_store E st" and s: "s < length (structs st)"
  shows "wf_store E (snd (Structure_model st s))"
proof (cases "p_model (structs st ! s) \<noteq> None \<or> p_representativeModel (structs st ! s) \<noteq> None
              \<or> p_masterModel (structs st ! s) \<noteq> None")
  case True
  with wf show ?thesis by (auto simp: Structure_model_def Let_def)
next
  case False
  let ?st1 = "snd (get_models st s)"
  let ?ms = "fst (get_models st s)"
  have wf1: "wf_store E ?st1" by (rule wf_store_get_models[OF wf s])
  have l1: "length (structs ?st1) = length (structs st)" by (simp add: get_models_snd)
  then have s1: "s < length (structs ?st1)" using s by simp
  have ms: "?ms = getModels_of (arrays st ! units (structs st ! s))" by (rule get_models_fst[OF wf s])
  have same: "arrays ?st1 = arrays st" "units (structs ?st1 ! s) = units (structs st ! s)"
    "p_representativeModel (structs ?st1 ! s) = None" "p_masterModel (structs ?st1 ! s) = None"
    using False s by (simp_all add: get_models_snd)
  show ?thesis
  proof (cases "length ?ms > 1")
    case True
    with False wf1 show ?thesis by (simp add: Structure_model_def Let_def split_beta)
  next
    case short: False
    let ?m = "if ?ms = [] then None else Some (?ms ! 0)"
    have one: "?ms \<noteq> [] \<Longrightarrow> ?ms = [?ms ! 0]"
      using short by (cases ?ms) auto
    have "wf_struct E ?st1 ((structs ?st1 ! s)\<lparr>p_model := ?m\<rparr>)"
      using wf_nth[OF wf1 s1] one
      by (auto simp: wf_struct_def Let_def same ms[symmetric] split: option.splits)
    from wf_store_update[OF wf1 s1 this] False short show ?thesis
      by (simp add: Structure_model_def Let_def split_beta)
  qed
qed

subsection \<open>Grouping filters like the segmented strategy\<close>

lemma foldl_addToUnit:
  "foldl (\<lambda>b l. addToUnit b (f l)) b ls
     = b\<lparr>currentUnit := currentUnit b @ map f ls, atomCount := atomCount b + length ls\<rparr>"
  by (induction ls arbitrary: b) (simp_all add: addToUnit_def)

lemma atomsOf_append: "atomsOf (xs @ ys) = atomsOf xs @ atomsOf ys"
  by (simp add: atomsOf_def)

lemma segmented_collect:
  "atomsOf (b_units (foldl (\<lambda>b i. commitUnit (scanUnit P (us i) (xs i) (\<lambda>b l. addToUnit b (snd l)) (beginUnit b)) (ids i))
                       b0 is))
     = atomsOf (b_units b0) @ concat (map (\<lambda>i. map (\<lambda>l. (ids i, snd l)) (acceptedAtoms P (us i) (xs i))) is)"
proof (induction "is" arbitrary: b0)
  case Nil
  then show ?case by simp
next
  case (Cons i "is")
  have "atomsOf (b_units (commitUnit (scanUnit P (us i) (xs i) (\<lambda>b l. addToUnit b (snd l)) (beginUnit b0)) (ids i)))
      = atomsOf (b_units b0) @ map (\<lambda>l. (ids i, snd l)) (acceptedAtoms P (us i) (xs i))"
    by (simp add: scanUnit_accepted foldl_addToUnit commitUnit_def beginUnit_def atomsOf_append)
       (simp add: atomsOf_def comp_def)
  with Cons.IH show ?case by simp
qed

lemma segmented_atoms:
  "concat (selection_groups (atomGroupsSegmented P s)) = map snd (groupedAdds P s)"
proof -
  have c: "concat (map (\<lambda>a. [a]) as) = as" for as :: "Atom list"
    by (induction as) simp_all
  let ?b = "foldl (\<lambda>b i. commitUnit (scanUnit P (qunits s (unitIds (atoms s) ! i))
                                  (unitGetByIndex (atoms s) i) (\<lambda>b l. addToUnit b (snd l)) (beginUnit b))
                                (unitIds (atoms s) ! i))
               (LinearBuilder (atoms s)) [0..<length (unitIds (atoms s))]"
  have sel: "atomGroupsSegmented P s = Singletons s (getSet ?b)"
    by (simp add: atomGroupsSegmented_def Let_def)
  have "atomsOf (b_units ?b) = map snd (groupedAdds P s)"
    using segmented_collect[of P "\<lambda>i. qunits s (unitIds (atoms s) ! i)" "\<lambda>i. unitGetByIndex (atoms s) i"
        "\<lambda>i. unitIds (atoms s) ! i" "LinearBuilder (atoms s)" "[0..<length (unitIds (atoms s))]"]
    by (simp add: groupedAdds_def LinearBuilder_def atomsOf_def map_concat comp_def)
  then show ?thesis
    by (simp only: sel selection_groups.simps c getSet_def)
qed

lemma groups_partition:
  "distinct ks \<Longrightarrow>
   (\<Sum>k\<leftarrow>ks. mset (groupAtoms xs k)) = mset (map snd (filter (\<lambda>x. fst x \<in> set ks) xs))"
proof (induction ks)
  case Nil
  then show ?case by simp
next
  case (Cons k ks)
  then have k: "k \<notin> set ks" and d: "distinct ks" by simp_all
  have "mset (groupAtoms xs k) + mset (map snd (filter (\<lambda>x. fst x \<in> set ks) xs))
      = mset (map snd (filter (\<lambda>x. fst x \<in> set (k # ks)) xs))"
    using k by (induction xs) (auto simp: groupAtoms_def)
  with Cons.IH[OF d] show ?case by simp
qed

lemma grouped_atoms:
  "mset (concat (selection_groups (getSelection (addAll s xs)))) = mset (map snd xs)"
proof (cases "xs = []")
  case True
  then show ?thesis by (simp add: getSelection_addAll)
next
  case False
  show ?thesis
  proof (cases "\<forall>k\<in>fst ` set xs. length (groupAtoms xs k) = 1")
    case True
    have c: "concat (map (\<lambda>a. [a]) as) = as" for as :: "Atom list"
      by (induction as) simp_all
    have "getSelection (addAll s xs) = Singletons s (ofAtoms (map snd xs) (atoms s))"
      using False True by (simp add: getSelection_addAll all_single_atoms[OF True])
    moreover have "mset (atomsOf (ofAtoms (map snd xs) (atoms s))) = mset (map snd xs)"
      using foldl_Builder_add[of "LinearBuilder (atoms s)" "map snd xs"]
      by (simp add: ofAtoms_def LinearBuilder_def getSet_def atomsOf_def)
    ultimately show ?thesis by (simp add: c)
  next
    case nt: False
    have "getSelection (addAll s xs)
        = Sequence s (map (\<lambda>k. getSet (groupBuilder s xs k)) (firstSeen (map fst xs)))"
      using False nt by (simp add: getSelection_addAll)
    then have "mset (concat (selection_groups (getSelection (addAll s xs))))
        = (\<Sum>k\<leftarrow>firstSeen (map fst xs). mset (groupAtoms xs k))"
      by (simp add: mset_concat comp_def groupBuilder_content)
    also have "\<dots> = mset (map snd (filter (\<lambda>x. fst x \<in> set (firstSeen (map fst xs))) xs))"
      by (rule groups_partition[OF firstSeen_distinct])
    also have "\<dots> = mset (map snd xs)"
      by (simp add: firstSeen_set)
    finally show ?thesis .
  qed
qed

text \<open>
  With a group-by the dispatch has one strategy only. It filters like the segmented
  strategy: the groups of a grouped query hold, between them, exactly the atoms the
  segmented query selects with the same predicates.
\<close>

lemma grouped_selects_the_segmented_atoms:
  "mset (concat (selection_groups (atomGroupsGrouped P s)))
     = mset (concat (selection_groups (atomGroupsSegmented P s)))"
  by (simp add: atomGroupsGrouped_adds grouped_atoms segmented_atoms)

subsection \<open>The hash code on the example stores\<close>

text \<open>
  The translated copy of the example Structure has the ids and element lists of the
  original, and with them its hash code.
\<close>

lemma ex_pairs2: "unitPairs ex_store2 1 = unitPairs ex_store1 0"
  using transform_result(2)[OF ex_wf1 _ ex_shift_ok, of 0]
  by (simp add: ex_store2_def ex_structs1)

theorem hashCode_pure_and_stable_witness:
  "wf_store ex_Ext ex_store1 \<and> 0 < length (structs ex_store1)
   \<and> fst (hashCode ex_Ext ex_store1 0) = -850935534
   \<and> hashCode ex_Ext (snd (hashCode ex_Ext ex_store1 0)) 0 = hashCode ex_Ext ex_store1 0
   \<and> fst (hashCode ex_Ext (snd (transformHash ex_Ext ex_store1 0)) 0) = -850935534
   \<and> wf_store ex_Ext ex_store2 \<and> 1 < length (structs ex_store2)
   \<and> unitPairs ex_store2 1 = unitPairs ex_store1 0
   \<and> fst (hashCode ex_Ext ex_store2 1) = -850935534"
proof -
  have s: "0 < length (structs ex_store1)" by (simp add: ex_structs1)
  note h = hashCode_pure_and_stable [OF ex_wf1 s]
  have v: "fst (hashCode ex_Ext ex_store1 0) = -850935534"
    using h by (simp add: ex_pairs1 hashOf_def countOf_def ex_Ext_sel toInt32_def)
  from h have "wf_store ex_Ext ex_store2 \<and> 1 < length (structs ex_store2)
                 \<and> unitPairs ex_store2 1 = unitPairs ex_store1 0
               \<longrightarrow> fst (hashCode ex_Ext ex_store2 1) = fst (hashCode ex_Ext ex_store1 0)"
    by blast
  then have t: "fst (hashCode ex_Ext ex_store2 1) = -850935534"
    using ex_wf2 ex_structs2(1) ex_pairs2 v by simp
  show ?thesis
    using h v t ex_wf1 ex_wf2 s ex_structs2(1) ex_pairs2 by simp
qed

end
